theory Spec2Isabelle
  imports Main "HOL-Library.Word" "HOL-Library.Sublist"
begin

unbundle bit_operations_syntax

section \<open>Text and bytes\<close>

text \<open>
  The checkpoint generator (\<^verbatim>\<open>scripts/generate_checkpoint.py\<close>) reads a C header as text,
  isolates the initialiser of \<^verbatim>\<open>HSK_CHECKPOINT_MAIN\<close> and turns its hex escapes into
  bytes. Text is a \<^typ>\<open>string\<close>; a Python \<^verbatim>\<open>bytes\<close> object is a list of 8-bit words.
  Every character the two scripts look for is ASCII, so a text can be read as its UTF-8
  bytes: positions then count bytes where Python counts code points, and the texts cut
  out at those positions are the same.
  The characters that cannot be written inside an Isabelle string literal are named here.
\<close>

type_synonym byte = "8 word"

abbreviation backslash :: char where "backslash \<equiv> CHR 0x5C"
abbreviation dquote :: char where "dquote \<equiv> CHR 0x22"
abbreviation squote :: char where "squote \<equiv> CHR 0x27"

text \<open>
  \<open>occurs_at sub s p\<close>: the text \<open>sub\<close> begins at position \<open>p\<close> of \<open>s\<close>. \<open>occurs sub s\<close> is
  Python's \<^verbatim>\<open>sub in s\<close>.
\<close>

definition occurs_at :: "string \<Rightarrow> string \<Rightarrow> nat \<Rightarrow> bool" where
  "occurs_at sub s p = (p \<le> length s \<and> prefix sub (drop p s))"

definition occurs :: "string \<Rightarrow> string \<Rightarrow> bool" where
  "occurs sub s = list_ex (occurs_at sub s) [0..<Suc (length s)]"

section \<open>extract\_hex\_strings\<close>

text \<open>
  The character class \<^verbatim>\<open>[0-9a-fA-F]\<close> of \<^verbatim>\<open>hex_pattern\<close>: three ranges of code points.
\<close>

definition hex_digit :: "char \<Rightarrow> bool" where
  "hex_digit c =
     (let n = (of_char c :: nat)
      in (48 \<le> n \<and> n \<le> 57) \<or> (97 \<le> n \<and> n \<le> 102) \<or> (65 \<le> n \<and> n \<le> 70))"

text \<open>
  \<^verbatim>\<open>int(hex_str, 16)\<close> on the captured group, which always consists of two characters of
  the class above: the value of one digit, and the base-16 reading of the group.
\<close>

definition digit_value :: "char \<Rightarrow> nat" where
  "digit_value c =
     (let n = (of_char c :: nat)
      in if n \<le> 57 then n - 48 else if 97 \<le> n then n - 87 else n - 55)"

definition int16 :: "string \<Rightarrow> nat" where
  "int16 hex_str = foldl (\<lambda>acc c. 16 * acc + digit_value c) 0 hex_str"

text \<open>
  \<^verbatim>\<open>re.findall(hex_pattern, content)\<close>: the captured groups of the leftmost,
  non-overlapping matches of \<^verbatim>\<open>\\x([0-9a-fA-F]{2})\<close>. After a match the scan resumes behind
  it; where no match starts, it resumes one character further.
\<close>

fun findall_hex :: "string \<Rightarrow> string list" where
  "findall_hex (a # b # c # d # rest) =
     (if a = backslash \<and> b = CHR ''x'' \<and> hex_digit c \<and> hex_digit d
      then [c, d] # findall_hex rest
      else findall_hex (b # c # d # rest))"
| "findall_hex _ = []"

text \<open>
  \<^verbatim>\<open>bytes([int(hex_str, 16) for hex_str in matches])\<close>. The constructor \<^verbatim>\<open>bytes\<close> raises
  on a value outside \<open>0..255\<close>; \<open>int16_lt_256\<close> below shows that no group reaches it.
\<close>

definition extract_hex_strings :: "string \<Rightarrow> byte list" where
  "extract_hex_strings content = map (\<lambda>hex_str. of_nat (int16 hex_str)) (findall_hex content)"

subsection \<open>The decoder as the specification words it\<close>

text \<open>
  A hex-escape token starts at position \<open>i\<close> of a text when the four characters from \<open>i\<close> on
  are a backslash, the letter x and two hexadecimal digits. The specified decoder lists
  the token positions in increasing order and reads each token's digits in base 16.
\<close>

definition token_at :: "string \<Rightarrow> nat \<Rightarrow> bool" where
  "token_at s i =
     (i + 3 < length s \<and> s ! i = backslash \<and> s ! (i + 1) = CHR ''x'' \<and>
      hex_digit (s ! (i + 2)) \<and> hex_digit (s ! (i + 3)))"

definition token_positions :: "string \<Rightarrow> nat list" where
  "token_positions s = filter (token_at s) [0..<length s]"

definition token_value :: "string \<Rightarrow> nat \<Rightarrow> nat" where
  "token_value s i = 16 * digit_value (s ! (i + 2)) + digit_value (s ! (i + 3))"

definition decode_spec :: "string \<Rightarrow> nat list" where
  "decode_spec s = map (token_value s) (token_positions s)"

section \<open>extract\_checkpoint\_array\<close>

text \<open>
  The three \<^verbatim>\<open>ValueError\<close>s of \<^verbatim>\<open>extract_checkpoint_array\<close>, told apart by their messages
  ("Could not find HSK\_CHECKPOINT\_MAIN array in file", "Could not find opening brace
  \<dots>", "Could not find matching closing brace \<dots>"), and the failure of the file
  writer, which \<^verbatim>\<open>main\<close> catches with them.
\<close>

datatype error = ArrayNotFound | OpeningBraceNotFound | ClosingBraceNotFound | OSError

text \<open>
  The specification's taxonomy: \<open>NotFoundError\<close> is the first message,
  \<open>MalformedLiteralError\<close> the other two.
\<close>

definition NotFoundError :: "error \<Rightarrow> bool" where
  "NotFoundError e = (e = ArrayNotFound)"

definition MalformedLiteralError :: "error \<Rightarrow> bool" where
  "MalformedLiteralError e = (e = OpeningBraceNotFound \<or> e = ClosingBraceNotFound)"

text \<open>
  \<^verbatim>\<open>content.find(sub, start)\<close>: the lowest index at or after \<open>start\<close> where \<open>sub\<close> begins,
  \<open>None\<close> for Python's \<open>-1\<close>. \<open>find_from\<close> walks the text that is left, carrying the index
  of its first character.
\<close>

fun find_from :: "string \<Rightarrow> string \<Rightarrow> nat \<Rightarrow> nat option" where
  "find_from sub [] i = (if sub = [] then Some i else None)"
| "find_from sub (c # cs) i = (if prefix sub (c # cs) then Some i else find_from sub cs (Suc i))"

definition str_find :: "string \<Rightarrow> string \<Rightarrow> nat \<Rightarrow> nat option" where
  "str_find content sub start =
     (if start \<le> length content then find_from sub (drop start content) start else None)"

text \<open>A slice \<^verbatim>\<open>content[lo:hi]\<close> with non-negative bounds.\<close>

definition slice :: "'a list \<Rightarrow> nat \<Rightarrow> nat \<Rightarrow> 'a list" where
  "slice xs lo hi = take (hi - lo) (drop lo xs)"

text \<open>
  The loop \<^verbatim>\<open>for i in range(brace_start, len(content))\<close>. Its state is \<open>brace_count\<close> and
  \<open>brace_end\<close>; the first argument is \<open>content[i:]\<close>. The \<^verbatim>\<open>break\<close> returns at once.
\<close>

fun scan_braces :: "string \<Rightarrow> nat \<Rightarrow> int \<Rightarrow> nat \<Rightarrow> int \<times> nat" where
  "scan_braces [] i brace_count brace_end = (brace_count, brace_end)"
| "scan_braces (c # cs) i brace_count brace_end =
     (if c = CHR ''{'' then scan_braces cs (Suc i) (brace_count + 1) brace_end
      else if c = CHR ''}'' then
        (if brace_count - 1 = 0 then (brace_count - 1, i)
         else scan_braces cs (Suc i) (brace_count - 1) brace_end)
      else scan_braces cs (Suc i) brace_count brace_end)"

definition array_name :: string where
  "array_name = ''HSK_CHECKPOINT_MAIN''"

text \<open>
  \<^verbatim>\<open>extract_checkpoint_array\<close>, from the text of the file on. The text searched for is the
  array's name with the opening bracket of its declarator, \<^verbatim>\<open>'HSK_CHECKPOINT_MAIN['\<close>.
\<close>

definition extract_checkpoint_array :: "string \<Rightarrow> error + string" where
  "extract_checkpoint_array content =
     (case str_find content (array_name @ ''['') 0 of
        None \<Rightarrow> Inl ArrayNotFound
      | Some array_start \<Rightarrow>
          (case str_find content ''{'' array_start of
             None \<Rightarrow> Inl OpeningBraceNotFound
           | Some brace_start \<Rightarrow>
               (case scan_braces (drop brace_start content) brace_start 0 brace_start of
                  (brace_count, brace_end) \<Rightarrow>
                    if brace_count \<noteq> 0 then Inl ClosingBraceNotFound
                    else Inr (slice content (brace_start + 1) brace_end))))"

subsection \<open>The locator as the specification words it\<close>

text \<open>
  \<open>first_at sub s lo p\<close>: \<open>p\<close> is the first position from \<open>lo\<close> on where \<open>sub\<close> begins in \<open>s\<close>.
  \<open>depth s\<close>: the number of opening braces of \<open>s\<close> less the number of closing ones.
\<close>

definition first_at :: "string \<Rightarrow> string \<Rightarrow> nat \<Rightarrow> nat \<Rightarrow> bool" where
  "first_at sub s lo p =
     (lo \<le> p \<and> occurs_at sub s p \<and> list_all (\<lambda>q. \<not> occurs_at sub s q) [lo..<p])"

definition depth :: "string \<Rightarrow> int" where
  "depth s = int (count_list s CHR ''{'') - int (count_list s CHR ''}'')"

text \<open>
  The specified algorithm for an array name \<open>name\<close>: \<open>a\<close> is the first occurrence of the
  name, \<open>b\<close> the first opening brace from \<open>a\<close> on, \<open>e\<close> the first position behind \<open>b\<close> where the
  depth counted from \<open>b\<close> is back at 0, and the literal is what stands strictly between \<open>b\<close>
  and \<open>e\<close>.
\<close>

definition first_balance :: "string \<Rightarrow> nat \<Rightarrow> nat \<Rightarrow> bool" where
  "first_balance s b e =
     (b < e \<and> e < length s \<and> depth (slice s b (Suc e)) = 0 \<and>
      list_all (\<lambda>k. depth (slice s b (Suc k)) \<noteq> 0) [b..<e])"

definition located :: "string \<Rightarrow> string \<Rightarrow> nat \<Rightarrow> nat \<Rightarrow> nat \<Rightarrow> string \<Rightarrow> bool" where
  "located name s a b e lit =
     (first_at name s 0 a \<and> first_at ''{'' s a b \<and> first_balance s b e \<and>
      lit = slice s (Suc b) e)"

text \<open>
  The two ways the specified algorithm fails behind the name: no opening brace from \<open>a\<close> on,
  and a depth that is never back at 0 from the brace at \<open>b\<close> to the end of the text.
\<close>

definition no_brace_from :: "string \<Rightarrow> nat \<Rightarrow> bool" where
  "no_brace_from s a = list_all (\<lambda>q. \<not> occurs_at ''{'' s q) [a..<Suc (length s)]"

definition never_balanced :: "string \<Rightarrow> nat \<Rightarrow> bool" where
  "never_balanced s b = list_all (\<lambda>k. depth (slice s b (Suc k)) \<noteq> 0) [b..<length s]"

definition fails_with :: "(error \<Rightarrow> bool) \<Rightarrow> error + 'a \<Rightarrow> bool" where
  "fails_with kind r = (case r of Inl e \<Rightarrow> kind e | Inr _ \<Rightarrow> False)"

text \<open>
  The bare array name begins at \<open>p\<close> and the next character is an opening bracket.
\<close>

definition name_with_bracket_at :: "string \<Rightarrow> nat \<Rightarrow> bool" where
  "name_with_bracket_at s p =
     (occurs_at array_name s p \<and> p + length array_name < length s \<and>
      s ! (p + length array_name) = CHR ''['')"

section \<open>main: validation and output\<close>

text \<open>
  What \<^verbatim>\<open>main\<close> prints, message by message, with the values its f-strings interpolate.
  \<open>CheckpointHeight h e\<close> is "Checkpoint height: h (expected: e)", \<open>SizeMismatch e n\<close> is
  "Warning: Size mismatch! Expected e bytes, got n" and \<open>HeightMismatch e h\<close> is
  "Warning: Height mismatch! Expected e, got h".
\<close>

datatype stream = Stdout | Stderr

datatype message =
    InputNotFound
  | ReadingFrom
  | ExtractedBytes nat
  | ExpectedSize nat
  | SizeMismatch nat nat
  | ExtractionIssueHint
  | SizeMatches
  | CheckpointHeight nat nat
  | HeightMismatch nat nat
  | HeightPassed
  | WroteCheckpoint
  | FileSize nat
  | ErrorMessage error

definition expected_size :: nat where
  "expected_size = 4 + 32 + (150 * 236)"

definition expected_height :: nat where
  "expected_height = 136000"

text \<open>
  Line 122: \<^verbatim>\<open>(height_bytes[0] << 24) | (height_bytes[1] << 16) | (height_bytes[2] << 8) |
  height_bytes[3]\<close> on Python's unbounded integers. It is evaluated only on four bytes.
\<close>

definition height_of :: "byte list \<Rightarrow> nat" where
  "height_of height_bytes =
     push_bit 24 (unat (height_bytes ! 0)) OR push_bit 16 (unat (height_bytes ! 1)) OR
     push_bit 8 (unat (height_bytes ! 2)) OR unat (height_bytes ! 3)"

text \<open>
  Lines 107 to 128 of \<^verbatim>\<open>main\<close>, the block the specification calls \<open>validate\<close>: the size
  check and the height check, as the messages they print.
\<close>

definition validate :: "byte list \<Rightarrow> (stream \<times> message) list" where
  "validate checkpoint_data =
     [(Stdout, ExtractedBytes (length checkpoint_data)), (Stdout, ExpectedSize expected_size)] @
     (if length checkpoint_data \<noteq> expected_size
      then [(Stderr, SizeMismatch expected_size (length checkpoint_data)),
            (Stderr, ExtractionIssueHint)]
      else [(Stdout, SizeMatches)]) @
     (if length checkpoint_data \<ge> 4
      then (let height_bytes = slice checkpoint_data 0 4;
                height = height_of height_bytes
            in (Stdout, CheckpointHeight height expected_height) #
               (if height \<noteq> expected_height
                then [(Stderr, HeightMismatch expected_height height)]
                else [(Stdout, HeightPassed)]))
      else [])"

text \<open>
  A run of \<^verbatim>\<open>main\<close>. The file system is the environment: \<open>input\<close> is the text of the input
  file (\<open>None\<close> when it does not exist), \<open>writable\<close> says whether creating the directory and
  writing the output file succeed. The result is what was printed, the bytes written to
  the output path, and the exit status.
\<close>

record run =
  printed :: "(stream \<times> message) list"
  written :: "byte list option"
  exit_status :: nat

definition main :: "string option \<Rightarrow> bool \<Rightarrow> run" where
  "main input writable =
     (case input of
        None \<Rightarrow> \<lparr>printed = [(Stderr, InputNotFound)], written = None, exit_status = 1\<rparr>
      | Some content \<Rightarrow>
          (case extract_checkpoint_array content of
             Inl e \<Rightarrow>
               \<lparr>printed = [(Stdout, ReadingFrom), (Stderr, ErrorMessage e)],
                written = None, exit_status = 1\<rparr>
           | Inr array_content \<Rightarrow>
               (let checkpoint_data = extract_hex_strings array_content;
                    out = (Stdout, ReadingFrom) # validate checkpoint_data
                in if writable
                   then \<lparr>printed = out @ [(Stdout, WroteCheckpoint),
                                            (Stdout, FileSize (length checkpoint_data))],
                         written = Some checkpoint_data, exit_status = 0\<rparr>
                   else \<lparr>printed = out @ [(Stderr, ErrorMessage OSError)],
                         written = None, exit_status = 1\<rparr>)))"

subsection \<open>The validation report of the specification\<close>

text \<open>
  The report is read off the diagnostics: the size is in order when the confirmation is
  printed, the height is the one the height line states, and it is in order when its
  confirmation is printed. The big-endian reading of four bytes is written out.
\<close>

definition sizeOk :: "(stream \<times> message) list \<Rightarrow> bool" where
  "sizeOk out = ((Stdout, SizeMatches) \<in> set out)"

definition heightOk :: "(stream \<times> message) list \<Rightarrow> bool" where
  "heightOk out = ((Stdout, HeightPassed) \<in> set out)"

fun stated_height :: "stream \<times> message \<Rightarrow> nat option" where
  "stated_height (Stdout, CheckpointHeight h e) = Some h"
| "stated_height _ = None"

definition heights :: "(stream \<times> message) list \<Rightarrow> nat list" where
  "heights out = List.map_filter stated_height out"

definition big_endian_uint32 :: "byte list \<Rightarrow> nat" where
  "big_endian_uint32 bs =
     unat (bs ! 0) * 2 ^ 24 + unat (bs ! 1) * 2 ^ 16 + unat (bs ! 2) * 2 ^ 8 + unat (bs ! 3)"

text \<open>
  The messages that state a height or a verdict on it.
\<close>

fun about_height :: "stream \<times> message \<Rightarrow> bool" where
  "about_height (s, CheckpointHeight h e) = True"
| "about_height (s, HeightMismatch e h) = True"
| "about_height (s, HeightPassed) = True"
| "about_height _ = False"

section \<open>clean\_logs\<close>

text \<open>
  The log cleaner (\<^verbatim>\<open>scripts/clean_logs.py\<close>) decides line by line. Its regular
  expressions are matched by Python's \<^verbatim>\<open>re\<close> module, and \<^verbatim>\<open>str.lower\<close> and \<^verbatim>\<open>str.strip\<close>
  follow the Unicode tables; these library calls are the fields of \<open>pylib\<close>, so that
  whatever is proved of the cleaner holds for every behaviour of theirs.
  \<^item> \<open>match_LOG_PATTERN s\<close>: \<^verbatim>\<open>re.match(LOG_PATTERN, s) is not None\<close>;
  \<^item> \<open>search_IP_PATTERN\<close>, \<open>search_IPV6_PATTERN\<close>, \<open>search_hash_pattern\<close>: \<^verbatim>\<open>re.search\<close>
    finds a match;
  \<^item> \<open>finditer_DOMAIN_PATTERN s\<close>: \<^verbatim>\<open>match.group(0)\<close> of the matches of
    \<^verbatim>\<open>re.finditer(DOMAIN_PATTERN, s, re.IGNORECASE)\<close>, in order;
  \<^item> \<open>lower\<close>, \<open>strip\<close>: the string methods.
\<close>

record pylib =
  match_LOG_PATTERN :: "string \<Rightarrow> bool"
  search_IP_PATTERN :: "string \<Rightarrow> bool"
  search_IPV6_PATTERN :: "string \<Rightarrow> bool"
  search_hash_pattern :: "string \<Rightarrow> bool"
  finditer_DOMAIN_PATTERN :: "string \<Rightarrow> string list"
  lower :: "string \<Rightarrow> string"
  strip :: "string \<Rightarrow> string"

definition EXCLUDED_DOMAINS :: "string list" where
  "EXCLUDED_DOMAINS =
     [''android'', ''java'', ''kotlin'', ''com.acktarius'', ''package'', ''import'',
      ''org.xbill'', ''org.bouncycastle'', ''fi.iki.elonen'']"

text \<open>\<^verbatim>\<open>s.rstrip('.')\<close> and \<^verbatim>\<open>s.split('.')\<close>, for any one separator character.\<close>

definition rstrip_char :: "char \<Rightarrow> string \<Rightarrow> string" where
  "rstrip_char c s = rev (dropWhile (\<lambda>x. x = c) (rev s))"

fun split_char :: "char \<Rightarrow> string \<Rightarrow> string list" where
  "split_char sep [] = [[]]"
| "split_char sep (c # cs) =
     (if c = sep then [] # split_char sep cs
      else (case split_char sep cs of
              [] \<Rightarrow> [[c]]
            | part # parts \<Rightarrow> (c # part) # parts))"

text \<open>
  The body of the loop over \<^verbatim>\<open>domain_matches\<close>: whether one match makes
  \<^verbatim>\<open>contains_sensitive_data\<close> return \<^verbatim>\<open>True\<close>.
\<close>

definition domain_is_sensitive :: "pylib \<Rightarrow> string \<Rightarrow> bool" where
  "domain_is_sensitive lib group0 =
     (let domain = rstrip_char CHR ''.'' (lower lib group0)
      in \<not> list_ex (\<lambda>ex. occurs ex domain) EXCLUDED_DOMAINS \<and>
         length (split_char CHR ''.'' domain) \<ge> 2)"

definition contains_sensitive_data :: "pylib \<Rightarrow> string \<Rightarrow> bool" where
  "contains_sensitive_data lib line =
     (if search_IP_PATTERN lib line \<or> search_IPV6_PATTERN lib line then
        (if (occurs ''9.9.9.9'' line \<or> occurs ''1.1.1.1'' line \<or> occurs ''127.0.0.1'' line) \<and>
            (occurs ''//'' line \<or> occurs ''const'' line \<or> occurs ''val'' line)
         then False else True)
      else if list_ex (domain_is_sensitive lib) (finditer_DOMAIN_PATTERN lib line) then True
      else if search_hash_pattern lib line then True
      else if occurs ''Log.'' line \<and> (occurs ''TLD'' line \<or> occurs ''tld'' line) then True
      else if occurs ''Log.'' line \<and>
              (occurs ''domain'' (lower lib line) \<or> occurs ''name'' (lower lib line)) \<and>
              (occurs [squote] line \<or> occurs [dquote] line) then True
      else False)"

definition is_log_statement :: "pylib \<Rightarrow> string \<Rightarrow> bool" where
  "is_log_statement lib line =
     (match_LOG_PATTERN lib (strip lib line) \<or> occurs ''android.util.Log.d'' line)"

text \<open>
  The loop of \<^verbatim>\<open>clean_file\<close> over the lines read, with its state \<open>cleaned_lines\<close> and
  \<open>removed_count\<close>; each \<^verbatim>\<open>continue\<close> goes on with the next line.
\<close>

fun clean_loop :: "pylib \<Rightarrow> string list \<Rightarrow> string list \<Rightarrow> nat \<Rightarrow> string list \<times> nat" where
  "clean_loop lib [] cleaned_lines removed_count = (cleaned_lines, removed_count)"
| "clean_loop lib (line # rest) cleaned_lines removed_count =
     (if (occurs ''Log.d'' line \<or> occurs ''android.util.Log.d'' line) \<and> is_log_statement lib line
      then clean_loop lib rest cleaned_lines (removed_count + 1)
      else if occurs ''Log.'' line \<and> contains_sensitive_data lib line
      then clean_loop lib rest cleaned_lines (removed_count + 1)
      else clean_loop lib rest (cleaned_lines @ [line]) removed_count)"

text \<open>
  \<^verbatim>\<open>clean_file\<close>, from the lines that \<^verbatim>\<open>readlines\<close> returned: the lines of the file
  afterwards and the value returned. The file is rewritten only when a line was removed;
  when it cannot be opened for writing (\<open>writable\<close> is false) it stays as it was.
\<close>

definition clean_file :: "pylib \<Rightarrow> bool \<Rightarrow> string list \<Rightarrow> string list \<times> bool" where
  "clean_file lib writable lines =
     (case clean_loop lib lines [] 0 of
        (cleaned_lines, removed_count) \<Rightarrow>
          if removed_count > 0
          then (if writable then (cleaned_lines, True) else (lines, False))
          else (lines, False))"

text \<open>
  The condition under which the loop drops a line: the disjunction of its two tests.
\<close>

definition is_removed :: "pylib \<Rightarrow> string \<Rightarrow> bool" where
  "is_removed lib line =
     (((occurs ''Log.d'' line \<or> occurs ''android.util.Log.d'' line) \<and> is_log_statement lib line) \<or>
      (occurs ''Log.'' line \<and> contains_sensitive_data lib line))"

text \<open>
  A library for concrete runs: every pattern matches everywhere, no domain is found, and
  \<open>lower\<close> and \<open>strip\<close> change nothing.
\<close>

definition match_everything :: pylib where
  "match_everything = \<lparr>match_LOG_PATTERN = (\<lambda>s. True), search_IP_PATTERN = (\<lambda>s. True),
     search_IPV6_PATTERN = (\<lambda>s. True), search_hash_pattern = (\<lambda>s. True),
     finditer_DOMAIN_PATTERN = (\<lambda>s. []), lower = (\<lambda>s. s), strip = (\<lambda>s. s)\<rparr>"

section \<open>Encoding bytes as an array literal\<close>

text \<open>
  The inverse direction, for the round trip: a byte is written as a backslash, the letter
  x and its two hexadecimal digits, and a byte sequence as the declaration of
  \<^verbatim>\<open>HSK_CHECKPOINT_MAIN\<close> whose braces enclose one string literal of such escapes.
\<close>

definition hex_char :: "nat \<Rightarrow> char" where
  "hex_char n = ''0123456789abcdef'' ! n"

definition hex_escape :: "byte \<Rightarrow> string" where
  "hex_escape b = [backslash, CHR ''x'', hex_char (unat b div 16), hex_char (unat b mod 16)]"

definition encode_literal :: "byte list \<Rightarrow> string" where
  "encode_literal bs = [dquote] @ concat (map hex_escape bs) @ [dquote]"

definition encode_array :: "byte list \<Rightarrow> string" where
  "encode_array bs =
     ''static const uint8_t '' @ array_name @ ''[] = {'' @ encode_literal bs @ ''};''"

section \<open>A small header\<close>

text \<open>
  A header whose array holds the four bytes \<open>00 00 00 01\<close>: too short, and of the wrong
  height.
\<close>

definition example_literal :: string where
  "example_literal =
     [dquote, backslash] @ ''x00'' @ [backslash] @ ''x00'' @ [backslash] @ ''x00'' @
     [backslash] @ ''x01'' @ [dquote]"

definition example_header :: string where
  "example_header = ''static const uint8_t HSK_CHECKPOINT_MAIN[4] = {'' @ example_literal @ ''};''"

section \<open>The decoder finds every token\<close>

lemma token_at_Suc: "token_at (c # s) (Suc i) = token_at s i"
  by (simp add: token_at_def add.commute)

lemma token_value_Suc: "token_value (c # s) (Suc i) = token_value s i"
  by (simp add: token_value_def add.commute)

lemma token_positions_Cons:
  "token_positions (c # s) =
     (if token_at (c # s) 0 then [0] else []) @ map Suc (token_positions s)"
proof -
  have "[0..<length (c # s)] = 0 # map Suc [0..<length s]"
    by (simp add: upt_conv_Cons map_Suc_upt del: upt_Suc)
  then show ?thesis
    by (simp add: token_positions_def filter_map o_def token_at_Suc)
qed

lemma decode_spec_Cons:
  "decode_spec (c # s) =
     (if token_at (c # s) 0 then [token_value (c # s) 0] else []) @ decode_spec s"
  by (simp add: decode_spec_def token_positions_Cons o_def token_value_Suc)

lemma not_hex_backslash: "\<not> hex_digit backslash"
  by (simp add: hex_digit_def)

lemma decode_spec_short: "length s < 4 \<Longrightarrow> decode_spec s = []"
  by (simp add: decode_spec_def token_positions_def token_at_def)

text \<open>
  No token begins inside another one, so resuming behind a match loses none: the groups
  that \<open>findall_hex\<close> captures are the tokens at all positions.
\<close>

lemma findall_hex_decode_spec: "map int16 (findall_hex s) = decode_spec s"
proof (induction s rule: findall_hex.induct)
  case (1 a b c d rest)
  show ?case
  proof (cases "a = backslash \<and> b = CHR ''x'' \<and> hex_digit c \<and> hex_digit d")
    case True
    have n1: "\<not> token_at (b # c # d # rest) 0"
      using True by (simp add: token_at_def)
    have n2: "\<not> token_at (c # d # rest) 0"
      using True not_hex_backslash by (auto simp add: token_at_def)
    have n3: "\<not> token_at (d # rest) 0"
      using True not_hex_backslash by (auto simp add: token_at_def)
    have t: "token_at (a # b # c # d # rest) 0"
      using True by (simp add: token_at_def)
    have "decode_spec (a # b # c # d # rest) =
            token_value (a # b # c # d # rest) 0 # decode_spec rest"
      by (simp only: decode_spec_Cons [of a] decode_spec_Cons [of b] decode_spec_Cons [of c]
            decode_spec_Cons [of d] t n1 n2 n3 if_True if_False append.simps)
    moreover have "int16 [c, d] = token_value (a # b # c # d # rest) 0"
      by (simp add: token_value_def int16_def)
    ultimately show ?thesis
      using True 1 by simp
  next
    case False
    then have "\<not> token_at (a # b # c # d # rest) 0"
      by (auto simp add: token_at_def)
    then have "decode_spec (a # b # c # d # rest) = decode_spec (b # c # d # rest)"
      by (simp add: decode_spec_Cons [of a])
    moreover have "findall_hex (a # b # c # d # rest) = findall_hex (b # c # d # rest)"
      by (simp only: findall_hex.simps(1) False if_False)
    ultimately show ?thesis
      using 1(2) [OF False] by simp
  qed
qed (simp_all add: decode_spec_short)

lemma digit_value_lt_16: "hex_digit c \<Longrightarrow> digit_value c < 16"
  by (auto simp add: hex_digit_def digit_value_def Let_def)

lemma findall_hex_groups:
  "hs \<in> set (findall_hex s) \<Longrightarrow> \<exists>c d. hs = [c, d] \<and> hex_digit c \<and> hex_digit d"
  by (induction s rule: findall_hex.induct) (auto split: if_splits)

lemma int16_lt_256: "hs \<in> set (findall_hex s) \<Longrightarrow> int16 hs < 256"
proof -
  assume "hs \<in> set (findall_hex s)"
  then obtain c d where "hs = [c, d]" "hex_digit c" "hex_digit d"
    using findall_hex_groups by blast
  then show ?thesis
    using digit_value_lt_16 [of c] digit_value_lt_16 [of d] by (simp add: int16_def)
qed

lemma unat_extract_hex_strings: "map unat (extract_hex_strings s) = map int16 (findall_hex s)"
proof -
  have "unat (of_nat (int16 hs) :: byte) = int16 hs" if "hs \<in> set (findall_hex s)" for hs
    using int16_lt_256 [OF that] by (simp add: unat_of_nat)
  then show ?thesis
    by (simp add: extract_hex_strings_def)
qed

text \<open>
  C1. For every text, \<open>extract_hex_strings\<close> returns one byte for each hex-escape token of
  the text, in the order of the token positions, and the byte's value is the base-16
  reading of the token's two digits; a text without a token gives the empty byte sequence.
\<close>

theorem decode_tokens_in_order:
  "map unat (extract_hex_strings s) = decode_spec s \<and>
   length (extract_hex_strings s) = length (token_positions s) \<and>
   (token_positions s = [] \<longrightarrow> extract_hex_strings s = [])"
proof -
  have eq: "map unat (extract_hex_strings s) = decode_spec s"
    by (simp add: unat_extract_hex_strings findall_hex_decode_spec)
  have "length (map unat (extract_hex_strings s)) = length (decode_spec s)"
    by (simp only: eq)
  then have len: "length (extract_hex_strings s) = length (token_positions s)"
    by (simp add: decode_spec_def)
  have "extract_hex_strings s = []" if "token_positions s = []"
    using len that by simp
  then show ?thesis
    using eq len by blast
qed

theorem decode_tokens_in_order_witness:
  "map unat (extract_hex_strings
       ([dquote, backslash] @ ''x41z'' @ [backslash] @ ''xfF'' @ [backslash] @ ''xg0'' @ [dquote]))
     = [65, 255] \<and>
   token_positions ''no escapes: x41 0x41'' = [] \<and>
   extract_hex_strings ''no escapes: x41 0x41'' = []"
proof -
  have t: "token_positions ''no escapes: x41 0x41'' = []"
    by (simp add: token_positions_def token_at_def)
  have d: "decode_spec
      ([dquote, backslash] @ ''x41z'' @ [backslash] @ ''xfF'' @ [backslash] @ ''xg0'' @ [dquote])
     = [65, 255]"
    by code_simp
  show ?thesis
    using decode_tokens_in_order
        [of "[dquote, backslash] @ ''x41z'' @ [backslash] @ ''xfF'' @ [backslash] @ ''xg0'' @ [dquote]"]
      decode_tokens_in_order [of "''no escapes: x41 0x41''"] t d
    by simp
qed

section \<open>Searching a text\<close>

text \<open>
  What \<open>find_from\<close> and \<open>str_find\<close> return, in terms of the positions where the text
  searched for begins.
\<close>

lemma find_from_None:
  "find_from sub cs i = None \<longleftrightarrow> (\<forall>p\<le>length cs. \<not> prefix sub (drop p cs))"
proof (induction cs arbitrary: i)
  case Nil
  then show ?case by simp
next
  case (Cons c cs)
  have "(\<forall>p\<le>length (c # cs). \<not> prefix sub (drop p (c # cs))) \<longleftrightarrow>
        (\<not> prefix sub (c # cs) \<and> (\<forall>p\<le>length cs. \<not> prefix sub (drop p cs)))"
  proof
    assume h: "\<forall>p\<le>length (c # cs). \<not> prefix sub (drop p (c # cs))"
    have "\<not> prefix sub (c # cs)" using h [rule_format, of 0] by simp
    moreover have "\<not> prefix sub (drop p cs)" if "p \<le> length cs" for p
      using h [rule_format, of "Suc p"] that by simp
    ultimately show "\<not> prefix sub (c # cs) \<and> (\<forall>p\<le>length cs. \<not> prefix sub (drop p cs))"
      by blast
  next
    assume h: "\<not> prefix sub (c # cs) \<and> (\<forall>p\<le>length cs. \<not> prefix sub (drop p cs))"
    show "\<forall>p\<le>length (c # cs). \<not> prefix sub (drop p (c # cs))"
    proof (intro allI impI)
      fix p assume "p \<le> length (c # cs)"
      then show "\<not> prefix sub (drop p (c # cs))"
        using h by (cases p) auto
    qed
  qed
  then show ?case using Cons.IH [of "Suc i"] by simp
qed

lemma find_from_Some:
  "find_from sub cs i = Some r \<longleftrightarrow>
     (\<exists>p\<le>length cs. r = i + p \<and> prefix sub (drop p cs) \<and> (\<forall>q<p. \<not> prefix sub (drop q cs)))"
proof (induction cs arbitrary: i)
  case Nil
  then show ?case by auto
next
  case (Cons c cs)
  show ?case
  proof (cases "prefix sub (c # cs)")
    case True
    have "(\<exists>p\<le>length (c # cs). r = i + p \<and> prefix sub (drop p (c # cs)) \<and>
            (\<forall>q<p. \<not> prefix sub (drop q (c # cs)))) \<longleftrightarrow> r = i"
    proof
      assume "\<exists>p\<le>length (c # cs). r = i + p \<and> prefix sub (drop p (c # cs)) \<and>
            (\<forall>q<p. \<not> prefix sub (drop q (c # cs)))"
      then obtain p where p: "r = i + p" "\<forall>q<p. \<not> prefix sub (drop q (c # cs))" by blast
      have "p = 0"
      proof (rule ccontr)
        assume "p \<noteq> 0"
        then have "\<not> prefix sub (drop 0 (c # cs))" using p(2) by blast
        then show False using True by simp
      qed
      then show "r = i" using p(1) by simp
    next
      assume "r = i"
      then show "\<exists>p\<le>length (c # cs). r = i + p \<and> prefix sub (drop p (c # cs)) \<and>
            (\<forall>q<p. \<not> prefix sub (drop q (c # cs)))"
        using True by (intro exI [of _ 0]) simp
    qed
    then show ?thesis using True by auto
  next
    case False
    have "(\<exists>p\<le>length (c # cs). r = i + p \<and> prefix sub (drop p (c # cs)) \<and>
            (\<forall>q<p. \<not> prefix sub (drop q (c # cs)))) \<longleftrightarrow>
          (\<exists>p\<le>length cs. r = Suc i + p \<and> prefix sub (drop p cs) \<and>
            (\<forall>q<p. \<not> prefix sub (drop q cs)))" (is "?L \<longleftrightarrow> ?R")
    proof
      assume ?L
      then obtain p where p: "p \<le> length (c # cs)" "r = i + p" "prefix sub (drop p (c # cs))"
        "\<forall>q<p. \<not> prefix sub (drop q (c # cs))" by blast
      from p(3) False obtain p' where p': "p = Suc p'" by (cases p) auto
      have "\<not> prefix sub (drop q cs)" if "q < p'" for q
        using p(4) [rule_format, of "Suc q"] that p' by simp
      then show ?R using p p' by (intro exI [of _ p']) simp
    next
      assume ?R
      then obtain p where p: "p \<le> length cs" "r = Suc i + p" "prefix sub (drop p cs)"
        "\<forall>q<p. \<not> prefix sub (drop q cs)" by blast
      have "\<not> prefix sub (drop q (c # cs))" if "q < Suc p" for q
        using that p(4) False by (cases q) auto
      then show ?L using p by (intro exI [of _ "Suc p"]) simp
    qed
    then show ?thesis using False Cons.IH [of "Suc i"] by simp
  qed
qed

lemma str_find_Some: "str_find s sub lo = Some p \<longleftrightarrow> first_at sub s lo p"
proof
  assume "str_find s sub lo = Some p"
  then have lo: "lo \<le> length s" and f: "find_from sub (drop lo s) lo = Some p"
    by (auto simp add: str_find_def split: if_splits)
  from f obtain k where k: "k \<le> length (drop lo s)" "p = lo + k" "prefix sub (drop k (drop lo s))"
    "\<forall>q<k. \<not> prefix sub (drop q (drop lo s))"
    unfolding find_from_Some by blast
  have "\<not> occurs_at sub s q" if "lo \<le> q" "q < p" for q
  proof -
    have "q - lo < k" using that k(2) by simp
    then have "\<not> prefix sub (drop (q - lo) (drop lo s))" using k(4) by blast
    then show ?thesis using that by (simp add: occurs_at_def)
  qed
  then show "first_at sub s lo p"
    using k lo by (auto simp add: first_at_def occurs_at_def list_all_iff add.commute)
next
  assume a: "first_at sub s lo p"
  then have lo: "lo \<le> p" "p \<le> length s" "prefix sub (drop p s)"
    and no: "\<And>q. lo \<le> q \<Longrightarrow> q < p \<Longrightarrow> \<not> occurs_at sub s q"
    by (auto simp add: first_at_def occurs_at_def list_all_iff)
  have "\<not> prefix sub (drop q (drop lo s))" if "q < p - lo" for q
    using no [of "lo + q"] that lo by (simp add: occurs_at_def add.commute)
  then have "find_from sub (drop lo s) lo = Some p"
    unfolding find_from_Some using lo by (intro exI [of _ "p - lo"]) (simp add: add.commute)
  then show "str_find s sub lo = Some p"
    using lo by (simp add: str_find_def)
qed

lemma str_find_None:
  "str_find s sub lo = None \<longleftrightarrow> list_all (\<lambda>q. \<not> occurs_at sub s q) [lo..<Suc (length s)]"
proof (cases "lo \<le> length s")
  case True
  have "(\<forall>p\<le>length (drop lo s). \<not> prefix sub (drop p (drop lo s))) \<longleftrightarrow>
        (\<forall>q. lo \<le> q \<and> q < Suc (length s) \<longrightarrow> \<not> occurs_at sub s q)" (is "?L \<longleftrightarrow> ?R")
  proof
    assume l: ?L
    show ?R
    proof (intro allI impI)
      fix q assume q: "lo \<le> q \<and> q < Suc (length s)"
      then have "q - lo \<le> length (drop lo s)" by (simp add: diff_le_mono)
      then have "\<not> prefix sub (drop (q - lo) (drop lo s))" using l by blast
      then show "\<not> occurs_at sub s q" using q by (simp add: occurs_at_def)
    qed
  next
    assume r: ?R
    show ?L
    proof (intro allI impI)
      fix p assume "p \<le> length (drop lo s)"
      then have "\<not> occurs_at sub s (lo + p)" using r True by simp
      then show "\<not> prefix sub (drop p (drop lo s))"
        using \<open>p \<le> length (drop lo s)\<close> True by (simp add: occurs_at_def add.commute)
    qed
  qed
  moreover have "list_all (\<lambda>q. \<not> occurs_at sub s q) [lo..<Suc (length s)] \<longleftrightarrow>
        (\<forall>q. lo \<le> q \<and> q < Suc (length s) \<longrightarrow> \<not> occurs_at sub s q)"
    by (auto simp add: list_all_iff simp del: upt_Suc)
  moreover have "str_find s sub lo = None \<longleftrightarrow>
        (\<forall>p\<le>length (drop lo s). \<not> prefix sub (drop p (drop lo s)))"
    using True by (simp only: str_find_def find_from_None if_True)
  ultimately show ?thesis by blast
next
  case False
  then show ?thesis by (simp add: str_find_def)
qed

section \<open>The brace scan\<close>

text \<open>
  Once the count is positive, the loop stops at the first position where the count is
  back at 0, and runs to the end of the text when there is none.
\<close>

lemma depth_Nil: "depth [] = 0"
  by (simp add: depth_def)

lemma depth_Cons:
  "depth (c # cs) = (if c = CHR ''{'' then 1 else if c = CHR ''}'' then - 1 else 0) + depth cs"
  by (simp add: depth_def)

lemma scan_braces_unbalanced:
  "1 \<le> cnt \<Longrightarrow> \<forall>k<length cs. cnt + depth (take (Suc k) cs) \<noteq> 0 \<Longrightarrow>
   scan_braces cs i cnt be = (cnt + depth cs, be) \<and> cnt + depth cs \<noteq> 0"
proof (induction cs arbitrary: i cnt)
  case Nil
  then show ?case by (simp add: depth_Nil)
next
  case (Cons c cs)
  let ?d = "if c = CHR ''{'' then 1 else if c = CHR ''}'' then - 1 else (0::int)"
  have first: "cnt + ?d \<noteq> 0"
    using Cons.prems(2) [rule_format, of 0] by (simp add: depth_Cons depth_Nil)
  then have pos: "1 \<le> cnt + ?d"
    using Cons.prems(1) by (auto split: if_splits)
  have rest: "\<forall>k<length cs. (cnt + ?d) + depth (take (Suc k) cs) \<noteq> 0"
  proof (intro allI impI)
    fix k assume "k < length cs"
    then show "(cnt + ?d) + depth (take (Suc k) cs) \<noteq> 0"
      using Cons.prems(2) [rule_format, of "Suc k"] by (simp add: depth_Cons add.assoc)
  qed
  have "scan_braces (c # cs) i cnt be = scan_braces cs (Suc i) (cnt + ?d) be"
    using first by auto
  then show ?case
    using Cons.IH [OF pos rest, of "Suc i"] by (simp add: depth_Cons add.assoc)
qed

lemma scan_braces_balanced:
  "1 \<le> cnt \<Longrightarrow> k < length cs \<Longrightarrow> cnt + depth (take (Suc k) cs) = 0 \<Longrightarrow>
   \<forall>j<k. cnt + depth (take (Suc j) cs) \<noteq> 0 \<Longrightarrow>
   scan_braces cs i cnt be = (0, i + k)"
proof (induction cs arbitrary: i cnt k)
  case Nil
  then show ?case by simp
next
  case (Cons c cs)
  let ?d = "if c = CHR ''{'' then 1 else if c = CHR ''}'' then - 1 else (0::int)"
  show ?case
  proof (cases k)
    case 0
    then have "cnt + ?d = 0"
      using Cons.prems(3) by (simp add: depth_Cons depth_Nil)
    then have "c = CHR ''}'' \<and> cnt - 1 = 0"
      using Cons.prems(1) by (auto split: if_splits)
    then show ?thesis using 0 by simp
  next
    case (Suc k')
    have first: "cnt + ?d \<noteq> 0"
      using Cons.prems(4) [rule_format, of 0] Suc by (simp add: depth_Cons depth_Nil)
    then have pos: "1 \<le> cnt + ?d"
      using Cons.prems(1) by (auto split: if_splits)
    have k': "k' < length cs" using Cons.prems(2) Suc by simp
    have bal: "(cnt + ?d) + depth (take (Suc k') cs) = 0"
      using Cons.prems(3) Suc by (simp add: depth_Cons add.assoc)
    have rest: "\<forall>j<k'. (cnt + ?d) + depth (take (Suc j) cs) \<noteq> 0"
    proof (intro allI impI)
      fix j assume "j < k'"
      then show "(cnt + ?d) + depth (take (Suc j) cs) \<noteq> 0"
        using Cons.prems(4) [rule_format, of "Suc j"] Suc by (simp add: depth_Cons add.assoc)
    qed
    have "scan_braces (c # cs) i cnt be = scan_braces cs (Suc i) (cnt + ?d) be"
      using first by auto
    then show ?thesis
      using Cons.IH [OF pos k' bal rest, of "Suc i"] Suc by simp
  qed
qed

lemma occurs_at_brace: "occurs_at ''{'' s b \<longleftrightarrow> b < length s \<and> s ! b = CHR ''{''"
proof (cases "b < length s")
  case True
  then have "drop b s = s ! b # drop (Suc b) s" by (simp add: Cons_nth_drop_Suc)
  then show ?thesis using True by (auto simp add: occurs_at_def)
next
  case False
  then show ?thesis by (simp add: occurs_at_def)
qed

lemma slice_from_brace:
  assumes "b < length s" "s ! b = CHR ''{''" "b \<le> k"
  shows "depth (slice s b (Suc k)) = 1 + depth (take (k - b) (drop (Suc b) s))"
proof -
  have "drop b s = CHR ''{'' # drop (Suc b) s"
    using assms by (simp add: Cons_nth_drop_Suc [symmetric])
  moreover have "Suc k - b = Suc (k - b)" using assms by simp
  ultimately show ?thesis by (simp add: slice_def depth_Cons)
qed

lemma scan_from_brace:
  assumes "b < length s" "s ! b = CHR ''{''"
  shows "scan_braces (drop b s) b 0 b = scan_braces (drop (Suc b) s) (Suc b) 1 b"
proof -
  have "drop b s = CHR ''{'' # drop (Suc b) s"
    using assms by (simp add: Cons_nth_drop_Suc [symmetric])
  then show ?thesis by simp
qed

lemma scan_first_balance:
  assumes "b < length s" "s ! b = CHR ''{''" "first_balance s b e"
  shows "scan_braces (drop b s) b 0 b = (0, e)"
proof -
  from assms(3) have e: "b < e" "e < length s" "depth (slice s b (Suc e)) = 0"
    and no: "\<And>k. b \<le> k \<Longrightarrow> k < e \<Longrightarrow> depth (slice s b (Suc k)) \<noteq> 0"
    by (auto simp add: first_balance_def list_all_iff)
  let ?cs = "drop (Suc b) s"
  let ?k = "e - Suc b"
  have k: "?k < length ?cs" using e by simp
  have bal: "1 + depth (take (Suc ?k) ?cs) = 0"
    using slice_from_brace [OF assms(1,2), of e] e
    by (simp add: Suc_diff_Suc)
  have rest: "\<forall>j<?k. 1 + depth (take (Suc j) ?cs) \<noteq> 0"
  proof (intro allI impI)
    fix j assume j: "j < ?k"
    have "depth (slice s b (Suc (Suc b + j))) \<noteq> 0"
      using no [of "Suc b + j"] j by simp
    then show "1 + depth (take (Suc j) ?cs) \<noteq> 0"
      using slice_from_brace [OF assms(1,2), of "Suc b + j"] by simp
  qed
  have "scan_braces ?cs (Suc b) 1 b = (0, Suc b + ?k)"
    by (rule scan_braces_balanced [OF _ k bal rest]) simp
  then show ?thesis
    using scan_from_brace [OF assms(1,2)] e by simp
qed

lemma scan_never_balanced:
  assumes "b < length s" "s ! b = CHR ''{''" "never_balanced s b"
  shows "\<exists>n. scan_braces (drop b s) b 0 b = (n, b) \<and> n \<noteq> 0"
proof -
  from assms(3) have no: "\<And>k. b \<le> k \<Longrightarrow> k < length s \<Longrightarrow> depth (slice s b (Suc k)) \<noteq> 0"
    by (auto simp add: never_balanced_def list_all_iff)
  let ?cs = "drop (Suc b) s"
  have rest: "\<forall>j<length ?cs. 1 + depth (take (Suc j) ?cs) \<noteq> 0"
  proof (intro allI impI)
    fix j assume j: "j < length ?cs"
    have "depth (slice s b (Suc (Suc b + j))) \<noteq> 0"
      using no [of "Suc b + j"] j by simp
    then show "1 + depth (take (Suc j) ?cs) \<noteq> 0"
      using slice_from_brace [OF assms(1,2), of "Suc b + j"] by simp
  qed
  have "scan_braces ?cs (Suc b) 1 b = (1 + depth ?cs, b) \<and> 1 + depth ?cs \<noteq> 0"
    by (rule scan_braces_unbalanced [OF _ rest]) simp
  then show ?thesis
    using scan_from_brace [OF assms(1,2)] by simp
qed

lemma balance_cases:
  assumes "b < length s" "s ! b = CHR ''{''"
  shows "never_balanced s b \<or> (\<exists>e. first_balance s b e)"
proof (cases "\<exists>k. b \<le> k \<and> k < length s \<and> depth (slice s b (Suc k)) = 0")
  case False
  then show ?thesis by (auto simp add: never_balanced_def list_all_iff)
next
  case True
  define e where "e = (LEAST k. b \<le> k \<and> k < length s \<and> depth (slice s b (Suc k)) = 0)"
  have e: "b \<le> e \<and> e < length s \<and> depth (slice s b (Suc e)) = 0"
    unfolding e_def using True by (rule LeastI_ex)
  have least: "\<not> (b \<le> k \<and> k < length s \<and> depth (slice s b (Suc k)) = 0)" if "k < e" for k
    using that unfolding e_def by (rule not_less_Least)
  have "depth (slice s b (Suc b)) = 1"
    using slice_from_brace [OF assms, of b] by (simp add: depth_Nil)
  then have "e \<noteq> b" using e by auto
  then have "b < e" using e by simp
  moreover have "depth (slice s b (Suc k)) \<noteq> 0" if "b \<le> k" "k < e" for k
    using least [OF that(2)] that e by simp
  ultimately have "first_balance s b e"
    using e by (auto simp add: first_balance_def list_all_iff)
  then show ?thesis by blast
qed

lemma first_balance_not_never: "first_balance s b e \<Longrightarrow> \<not> never_balanced s b"
  by (auto simp add: first_balance_def never_balanced_def list_all_iff)

lemma first_at_unique: "first_at sub s lo p \<Longrightarrow> first_at sub s lo q \<Longrightarrow> p = q"
  using str_find_Some [of s sub lo] by (metis option.inject)

lemma first_at_brace: "first_at ''{'' s a b \<Longrightarrow> b < length s \<and> s ! b = CHR ''{''"
  by (simp add: first_at_def occurs_at_brace)

lemma extract_Inr:
  "extract_checkpoint_array s = Inr lit \<longleftrightarrow>
     (\<exists>a b e. located (array_name @ ''['') s a b e lit)"
proof
  assume r: "extract_checkpoint_array s = Inr lit"
  then obtain a where a: "str_find s (array_name @ ''['') 0 = Some a"
    by (auto simp add: extract_checkpoint_array_def split: option.splits)
  with r obtain b where b: "str_find s ''{'' a = Some b"
    by (auto simp add: extract_checkpoint_array_def split: option.splits)
  obtain n e where sc: "scan_braces (drop b s) b 0 b = (n, e)"
    by (cases "scan_braces (drop b s) b 0 b")
  from r a b sc have n: "n = 0" and lit: "lit = slice s (Suc b) e"
    by (auto simp add: extract_checkpoint_array_def split: if_splits)
  have fa: "first_at (array_name @ ''['') s 0 a" using a by (simp add: str_find_Some)
  have fb: "first_at ''{'' s a b" using b by (simp add: str_find_Some)
  note br = first_at_brace [OF fb]
  have "\<not> never_balanced s b"
    using scan_never_balanced [of b s] br sc n by auto
  then obtain e' where e': "first_balance s b e'"
    using balance_cases [of b s] br by blast
  then have "e = e'"
    using scan_first_balance [of b s e'] br sc by simp
  then show "\<exists>a b e. located (array_name @ ''['') s a b e lit"
    using fa fb e' lit by (auto simp add: located_def)
next
  assume "\<exists>a b e. located (array_name @ ''['') s a b e lit"
  then obtain a b e where fa: "first_at (array_name @ ''['') s 0 a" and fb: "first_at ''{'' s a b"
    and e: "first_balance s b e" and lit: "lit = slice s (Suc b) e"
    by (auto simp add: located_def)
  note br = first_at_brace [OF fb]
  have "scan_braces (drop b s) b 0 b = (0, e)"
    using scan_first_balance [of b s e] br e by simp
  moreover have "str_find s (array_name @ ''['') 0 = Some a" using fa by (simp add: str_find_Some)
  moreover have "str_find s ''{'' a = Some b" using fb by (simp add: str_find_Some)
  ultimately show "extract_checkpoint_array s = Inr lit"
    using lit by (simp add: extract_checkpoint_array_def)
qed

section \<open>The outcomes of the locator\<close>

lemma occurs_iff: "occurs sub s \<longleftrightarrow> \<not> list_all (\<lambda>q. \<not> occurs_at sub s q) [0..<Suc (length s)]"
  by (simp only: occurs_def list_ex_iff list_all_iff) blast

lemma occurs_iff_ex: "occurs sub s \<longleftrightarrow> (\<exists>p. occurs_at sub s p)"
proof
  assume "occurs sub s"
  then show "\<exists>p. occurs_at sub s p"
    unfolding occurs_def list_ex_iff by blast
next
  assume "\<exists>p. occurs_at sub s p"
  then obtain p where p: "occurs_at sub s p" by blast
  then have "p < Suc (length s)" by (simp add: occurs_at_def)
  then have "p \<in> set [0..<Suc (length s)]" by (simp del: upt_Suc)
  then show "occurs sub s"
    unfolding occurs_def list_ex_iff using p by blast
qed

lemma extract_ArrayNotFound:
  "extract_checkpoint_array s = Inl ArrayNotFound \<longleftrightarrow> \<not> occurs (array_name @ ''['') s"
proof -
  have "extract_checkpoint_array s = Inl ArrayNotFound \<longleftrightarrow>
        str_find s (array_name @ ''['') 0 = None"
    by (auto simp add: extract_checkpoint_array_def split: option.splits prod.splits)
  then show ?thesis
    by (simp add: str_find_None occurs_iff)
qed

lemma extract_OpeningBraceNotFound:
  "extract_checkpoint_array s = Inl OpeningBraceNotFound \<longleftrightarrow>
     (\<exists>a. first_at (array_name @ ''['') s 0 a \<and> no_brace_from s a)"
proof -
  have "extract_checkpoint_array s = Inl OpeningBraceNotFound \<longleftrightarrow>
        (\<exists>a. str_find s (array_name @ ''['') 0 = Some a \<and> str_find s ''{'' a = None)"
    by (auto simp add: extract_checkpoint_array_def split: option.splits prod.splits)
  then show ?thesis
    by (simp only: str_find_None str_find_Some no_brace_from_def)
qed

lemma extract_ClosingBraceNotFound:
  "extract_checkpoint_array s = Inl ClosingBraceNotFound \<longleftrightarrow>
     (\<exists>a b. first_at (array_name @ ''['') s 0 a \<and> first_at ''{'' s a b \<and> never_balanced s b)"
proof
  assume r: "extract_checkpoint_array s = Inl ClosingBraceNotFound"
  then obtain a where a: "str_find s (array_name @ ''['') 0 = Some a"
    by (auto simp add: extract_checkpoint_array_def split: option.splits)
  with r obtain b where b: "str_find s ''{'' a = Some b"
    by (auto simp add: extract_checkpoint_array_def split: option.splits)
  obtain n e where sc: "scan_braces (drop b s) b 0 b = (n, e)"
    by (cases "scan_braces (drop b s) b 0 b")
  from r a b sc have n: "n \<noteq> 0"
    by (auto simp add: extract_checkpoint_array_def split: if_splits)
  have fa: "first_at (array_name @ ''['') s 0 a" using a by (simp add: str_find_Some)
  have fb: "first_at ''{'' s a b" using b by (simp add: str_find_Some)
  note br = first_at_brace [OF fb]
  have "\<not> first_balance s b e'" for e'
    using scan_first_balance [of b s e'] br sc n by auto
  then have "never_balanced s b"
    using balance_cases [of b s] br by blast
  then show "\<exists>a b. first_at (array_name @ ''['') s 0 a \<and> first_at ''{'' s a b \<and> never_balanced s b"
    using fa fb by blast
next
  assume "\<exists>a b. first_at (array_name @ ''['') s 0 a \<and> first_at ''{'' s a b \<and> never_balanced s b"
  then obtain a b where fa: "first_at (array_name @ ''['') s 0 a" and fb: "first_at ''{'' s a b"
    and nb: "never_balanced s b" by blast
  note br = first_at_brace [OF fb]
  obtain n where "scan_braces (drop b s) b 0 b = (n, b)" "n \<noteq> 0"
    using scan_never_balanced [of b s] br nb by blast
  moreover have "str_find s (array_name @ ''['') 0 = Some a" using fa by (simp add: str_find_Some)
  moreover have "str_find s ''{'' a = Some b" using fb by (simp add: str_find_Some)
  ultimately show "extract_checkpoint_array s = Inl ClosingBraceNotFound"
    by (simp add: extract_checkpoint_array_def)
qed

lemma extract_cases:
  "extract_checkpoint_array s = Inl ArrayNotFound \<or>
   extract_checkpoint_array s = Inl OpeningBraceNotFound \<or>
   extract_checkpoint_array s = Inl ClosingBraceNotFound \<or>
   (\<exists>lo hi. extract_checkpoint_array s = Inr (slice s lo hi))"
proof (cases "str_find s (array_name @ ''['') 0")
  case None
  then show ?thesis by (simp add: extract_checkpoint_array_def)
next
  case a: (Some a)
  show ?thesis
  proof (cases "str_find s ''{'' a")
    case None
    then show ?thesis using a by (simp add: extract_checkpoint_array_def)
  next
    case b: (Some b)
    obtain n e where sc: "scan_braces (drop b s) b 0 b = (n, e)"
      by (cases "scan_braces (drop b s) b 0 b")
    show ?thesis
    proof (cases "n = 0")
      case True
      then have "extract_checkpoint_array s = Inr (slice s (b + 1) e)"
        using a b sc by (simp add: extract_checkpoint_array_def)
      then show ?thesis by blast
    next
      case False
      then show ?thesis using a b sc by (simp add: extract_checkpoint_array_def)
    qed
  qed
qed

lemma sublist_slice: "sublist (slice s lo hi) s"
  unfolding slice_def
proof -
  have "sublist (take (hi - lo) (drop lo s)) (drop lo s)" by (rule sublist_take)
  moreover have "sublist (drop lo s) s" by (rule sublist_drop)
  ultimately show "sublist (take (hi - lo) (drop lo s)) s"
    by (rule sublist_order.order_trans)
qed

lemma first_balance_unique: "first_balance s b e \<Longrightarrow> first_balance s b e' \<Longrightarrow> e = e'"
proof (rule ccontr)
  assume a: "first_balance s b e" "first_balance s b e'" "e \<noteq> e'"
  then consider "e < e'" | "e' < e" by linarith
  then show False
  proof cases
    case 1
    have "b \<le> e" "depth (slice s b (Suc e)) = 0"
      using a(1) by (simp_all add: first_balance_def)
    moreover have "\<forall>k\<in>set [b..<e']. depth (slice s b (Suc k)) \<noteq> 0"
      using a(2) by (simp add: first_balance_def list_all_iff)
    ultimately show False using 1 by simp
  next
    case 2
    have "b \<le> e'" "depth (slice s b (Suc e')) = 0"
      using a(2) by (simp_all add: first_balance_def)
    moreover have "\<forall>k\<in>set [b..<e]. depth (slice s b (Suc k)) \<noteq> 0"
      using a(1) by (simp add: first_balance_def list_all_iff)
    ultimately show False using 2 by simp
  qed
qed

lemma located_functional:
  "located name s a b e lit \<Longrightarrow> located name s a' b' e' lit' \<Longrightarrow> lit = lit'"
proof -
  assume l: "located name s a b e lit" and l': "located name s a' b' e' lit'"
  have "a = a'" using l l' first_at_unique [of name s 0 a a'] by (simp add: located_def)
  then have "b = b'" using l l' first_at_unique [of "''{''" s a b b'] by (simp add: located_def)
  then have "e = e'" using l l' first_balance_unique [of s b e e'] by (simp add: located_def)
  then show ?thesis using l l' \<open>b = b'\<close> by (simp add: located_def)
qed

lemma prefix_snoc_iff:
  "prefix (xs @ [c]) ys \<longleftrightarrow> prefix xs ys \<and> length xs < length ys \<and> ys ! length xs = c"
proof
  assume "prefix (xs @ [c]) ys"
  then obtain zs where "ys = (xs @ [c]) @ zs" by (auto simp add: prefix_def)
  then show "prefix xs ys \<and> length xs < length ys \<and> ys ! length xs = c"
    by (simp add: nth_append)
next
  assume a: "prefix xs ys \<and> length xs < length ys \<and> ys ! length xs = c"
  then obtain ws where ws: "ys = xs @ ws" by (auto simp add: prefix_def)
  with a obtain w zs where "ws = w # zs" by (cases ws) auto
  with a ws show "prefix (xs @ [c]) ys" by (simp add: nth_append)
qed

lemma name_with_bracket_at_iff:
  "name_with_bracket_at s p \<longleftrightarrow> occurs_at (array_name @ ''['') s p"
proof (cases "p \<le> length s")
  case True
  have "drop p s ! length array_name = s ! (p + length array_name)"
    if "length array_name < length (drop p s)"
    using that by simp
  then show ?thesis
    using True by (auto simp add: name_with_bracket_at_def occurs_at_def prefix_snoc_iff)
next
  case False
  then show ?thesis by (simp add: name_with_bracket_at_def occurs_at_def)
qed

lemma find_from_shift: "find_from sub cs i = map_option (\<lambda>k. i + k) (find_from sub cs 0)"
proof (induction cs arbitrary: i)
  case Nil
  then show ?case by simp
next
  case (Cons c cs)
  show ?case
  proof (cases "prefix sub (c # cs)")
    case True
    then show ?thesis by simp
  next
    case False
    have "find_from sub (c # cs) i = find_from sub cs (Suc i)" using False by simp
    also have "\<dots> = map_option (\<lambda>k. Suc i + k) (find_from sub cs 0)" by (rule Cons.IH)
    also have "\<dots> = map_option (\<lambda>k. i + k) (map_option (\<lambda>k. Suc 0 + k) (find_from sub cs 0))"
      by (simp add: option.map_comp o_def)
    also have "map_option (\<lambda>k. Suc 0 + k) (find_from sub cs 0) = find_from sub cs (Suc 0)"
      by (rule Cons.IH [symmetric])
    also have "find_from sub cs (Suc 0) = find_from sub (c # cs) 0" using False by simp
    finally show ?thesis .
  qed
qed

lemma scan_braces_shift:
  "(\<exists>k. scan_braces cs i cnt be = (0, i + k) \<and> scan_braces cs i' cnt be' = (0, i' + k)) \<or>
   (\<exists>n. scan_braces cs i cnt be = (n, be) \<and> scan_braces cs i' cnt be' = (n, be'))"
proof (induction cs arbitrary: i i' cnt)
  case Nil
  then show ?case by simp
next
  case (Cons c cs)
  show ?case
  proof (cases "c = CHR ''}'' \<and> cnt - 1 = 0")
    case True
    then have "scan_braces (c # cs) i cnt be = (0, i + 0)"
      "scan_braces (c # cs) i' cnt be' = (0, i' + 0)" by simp_all
    then show ?thesis by blast
  next
    case False
    let ?d = "if c = CHR ''{'' then 1 else if c = CHR ''}'' then - 1 else (0::int)"
    have s1: "scan_braces (c # cs) i cnt be = scan_braces cs (Suc i) (cnt + ?d) be"
      using False by auto
    have s2: "scan_braces (c # cs) i' cnt be' = scan_braces cs (Suc i') (cnt + ?d) be'"
      using False by auto
    from Cons.IH [of "Suc i" "cnt + ?d" "Suc i'"] show ?thesis
    proof
      assume "\<exists>k. scan_braces cs (Suc i) (cnt + ?d) be = (0, Suc i + k) \<and>
                  scan_braces cs (Suc i') (cnt + ?d) be' = (0, Suc i' + k)"
      then obtain k where "scan_braces cs (Suc i) (cnt + ?d) be = (0, i + Suc k)"
        "scan_braces cs (Suc i') (cnt + ?d) be' = (0, i' + Suc k)" by auto
      then show ?thesis unfolding s1 s2 by blast
    next
      assume "\<exists>n. scan_braces cs (Suc i) (cnt + ?d) be = (n, be) \<and>
                  scan_braces cs (Suc i') (cnt + ?d) be' = (n, be')"
      then show ?thesis unfolding s1 s2 by blast
    qed
  qed
qed

lemma extract_drop:
  assumes "first_at (array_name @ ''['') s 0 a"
  shows "extract_checkpoint_array s = extract_checkpoint_array (drop a s)"
proof -
  let ?needle = "array_name @ ''[''" and ?t = "drop a s"
  from assms have a: "a \<le> length s" "prefix ?needle ?t"
    by (simp_all add: first_at_def occurs_at_def)
  have fs: "str_find s ?needle 0 = Some a" using assms by (simp add: str_find_Some)
  have "first_at ?needle ?t 0 0" using a by (simp add: first_at_def occurs_at_def)
  then have ft: "str_find ?t ?needle 0 = Some 0" by (simp add: str_find_Some)
  have br: "str_find s ''{'' a = map_option (\<lambda>k. a + k) (str_find ?t ''{'' 0)"
    using a find_from_shift [of "''{''" ?t a] by (simp add: str_find_def)
  show ?thesis
  proof (cases "str_find ?t ''{'' 0")
    case None
    then show ?thesis using fs ft br by (simp add: extract_checkpoint_array_def)
  next
    case (Some b')
    then have b: "str_find s ''{'' a = Some (a + b')" using br by simp
    have d: "drop b' ?t = drop (a + b') s" by (simp add: add.commute)
    have e1: "extract_checkpoint_array s =
        (case scan_braces (drop (a + b') s) (a + b') 0 (a + b') of
           (n, e) \<Rightarrow> if n \<noteq> 0 then Inl ClosingBraceNotFound
                     else Inr (slice s (a + b' + 1) e))"
      using fs b by (simp add: extract_checkpoint_array_def)
    have e2: "extract_checkpoint_array ?t =
        (case scan_braces (drop (a + b') s) b' 0 b' of
           (n, e) \<Rightarrow> if n \<noteq> 0 then Inl ClosingBraceNotFound
                     else Inr (slice ?t (b' + 1) e))"
      using ft Some d by (simp add: extract_checkpoint_array_def)
    from scan_braces_shift [of "drop (a + b') s" "a + b'" 0 "a + b'" b' b'] show ?thesis
    proof
      assume "\<exists>k. scan_braces (drop (a + b') s) (a + b') 0 (a + b') = (0, a + b' + k) \<and>
                  scan_braces (drop (a + b') s) b' 0 b' = (0, b' + k)"
      then obtain k where k: "scan_braces (drop (a + b') s) (a + b') 0 (a + b') = (0, a + b' + k)"
        "scan_braces (drop (a + b') s) b' 0 b' = (0, b' + k)" by blast
      have "slice s (a + b' + 1) (a + b' + k) = slice ?t (b' + 1) (b' + k)"
        by (simp add: slice_def add.commute add.left_commute)
      then show ?thesis unfolding e1 e2 k by simp
    next
      assume "\<exists>n. scan_braces (drop (a + b') s) (a + b') 0 (a + b') = (n, a + b') \<and>
                  scan_braces (drop (a + b') s) b' 0 b' = (n, b')"
      then obtain n where n: "scan_braces (drop (a + b') s) (a + b') 0 (a + b') = (n, a + b')"
        "scan_braces (drop (a + b') s) b' 0 b' = (n, b')" by blast
      have "slice s (a + b' + 1) (a + b') = slice ?t (b' + 1) b'"
        by (simp add: slice_def)
      then show ?thesis unfolding e1 e2 n by simp
    qed
  qed
qed

text \<open>
  C9. The locator looks for the array name with the opening bracket behind it. A text in
  which the bare name occurs, but nowhere with a bracket as the next character, fails with
  the not-found error; and when \<open>a\<close> is the first position where the name stands with its
  bracket, the result is that of the text from \<open>a\<close> on, so that whatever stands before
  \<open>a\<close>, bare names included, is skipped.
\<close>

theorem locator_needs_bracket:
  "(occurs array_name s \<and> (\<forall>p. \<not> name_with_bracket_at s p) \<longrightarrow>
      extract_checkpoint_array s = Inl ArrayNotFound \<and>
      fails_with NotFoundError (extract_checkpoint_array s)) \<and>
   (name_with_bracket_at s a \<and> (\<forall>q<a. \<not> name_with_bracket_at s q) \<longrightarrow>
      extract_checkpoint_array s = extract_checkpoint_array (drop a s))"
proof (intro conjI impI)
  assume h: "occurs array_name s \<and> (\<forall>p. \<not> name_with_bracket_at s p)"
  then have "\<not> occurs (array_name @ ''['') s"
    by (simp add: occurs_iff_ex name_with_bracket_at_iff)
  then show e: "extract_checkpoint_array s = Inl ArrayNotFound"
    by (simp add: extract_ArrayNotFound)
  then show "fails_with NotFoundError (extract_checkpoint_array s)"
    by (simp add: fails_with_def NotFoundError_def)
next
  assume h: "name_with_bracket_at s a \<and> (\<forall>q<a. \<not> name_with_bracket_at s q)"
  then have "first_at (array_name @ ''['') s 0 a"
    by (simp add: first_at_def list_all_iff name_with_bracket_at_iff)
  then show "extract_checkpoint_array s = extract_checkpoint_array (drop a s)"
    by (rule extract_drop)
qed

theorem locator_needs_bracket_witness:
  "occurs array_name ''HSK_CHECKPOINT_MAIN = {}'' \<and>
   fails_with NotFoundError (extract_checkpoint_array ''HSK_CHECKPOINT_MAIN = {}'') \<and>
   name_with_bracket_at ''HSK_CHECKPOINT_MAIN {a} HSK_CHECKPOINT_MAIN[1] = {b}'' 24 \<and>
   extract_checkpoint_array ''HSK_CHECKPOINT_MAIN {a} HSK_CHECKPOINT_MAIN[1] = {b}'' =
     extract_checkpoint_array ''HSK_CHECKPOINT_MAIN[1] = {b}'' \<and>
   extract_checkpoint_array ''HSK_CHECKPOINT_MAIN[1] = {b}'' = Inr ''b''"
proof -
  let ?s1 = "''HSK_CHECKPOINT_MAIN = {}''"
  let ?s2 = "''HSK_CHECKPOINT_MAIN {a} HSK_CHECKPOINT_MAIN[1] = {b}''"
  have o1: "occurs array_name ?s1" by code_simp
  have "\<not> occurs (array_name @ ''['') ?s1" by code_simp
  then have n1: "\<forall>p. \<not> name_with_bracket_at ?s1 p"
    by (simp add: occurs_iff_ex name_with_bracket_at_iff)
  have "first_at (array_name @ ''['') ?s2 0 24" by code_simp
  then have n2: "name_with_bracket_at ?s2 24 \<and> (\<forall>q<24. \<not> name_with_bracket_at ?s2 q)"
    by (simp add: first_at_def list_all_iff name_with_bracket_at_iff del: upt.simps)
  have d: "drop 24 ?s2 = ''HSK_CHECKPOINT_MAIN[1] = {b}''" by code_simp
  have r: "extract_checkpoint_array ''HSK_CHECKPOINT_MAIN[1] = {b}'' = Inr ''b''" by code_simp
  have c1: "fails_with NotFoundError (extract_checkpoint_array ?s1)"
    using locator_needs_bracket [of ?s1] o1 n1 by blast
  have c2: "extract_checkpoint_array ?s2 = extract_checkpoint_array (drop 24 ?s2)"
    using locator_needs_bracket [of ?s2 24] n2 by blast
  show ?thesis
    using o1 c1 n2 c2 r unfolding d by blast
qed

lemma closing_brace_at_balance:
  "1 \<le> cnt \<Longrightarrow> k < length cs \<Longrightarrow> cnt + depth (take (Suc k) cs) = 0 \<Longrightarrow>
   \<forall>j<k. cnt + depth (take (Suc j) cs) \<noteq> 0 \<Longrightarrow> cs ! k = CHR ''}''"
proof (induction cs arbitrary: cnt k)
  case Nil
  then show ?case by simp
next
  case (Cons c cs)
  let ?d = "if c = CHR ''{'' then 1 else if c = CHR ''}'' then - 1 else (0::int)"
  show ?case
  proof (cases k)
    case 0
    then have "cnt + ?d = 0"
      using Cons.prems(3) by (simp add: depth_Cons depth_Nil)
    then have "c = CHR ''}''"
      using Cons.prems(1) by (auto split: if_splits)
    then show ?thesis using 0 by simp
  next
    case (Suc k')
    have first: "cnt + ?d \<noteq> 0"
      using Cons.prems(4) [rule_format, of 0] Suc by (simp add: depth_Cons depth_Nil)
    then have pos: "1 \<le> cnt + ?d"
      using Cons.prems(1) by (auto split: if_splits)
    have k': "k' < length cs" using Cons.prems(2) Suc by simp
    have bal: "(cnt + ?d) + depth (take (Suc k') cs) = 0"
      using Cons.prems(3) Suc by (simp add: depth_Cons add.assoc)
    have rest: "\<forall>j<k'. (cnt + ?d) + depth (take (Suc j) cs) \<noteq> 0"
    proof (intro allI impI)
      fix j assume "j < k'"
      then show "(cnt + ?d) + depth (take (Suc j) cs) \<noteq> 0"
        using Cons.prems(4) [rule_format, of "Suc j"] Suc by (simp add: depth_Cons add.assoc)
    qed
    show ?thesis
      using Cons.IH [OF pos k' bal rest] Suc by simp
  qed
qed

lemma first_balance_closes:
  assumes "b < length s" "s ! b = CHR ''{''" "first_balance s b e"
  shows "s ! e = CHR ''}''"
proof -
  from assms(3) have e: "b < e" "e < length s" "depth (slice s b (Suc e)) = 0"
    and no: "\<And>k. b \<le> k \<Longrightarrow> k < e \<Longrightarrow> depth (slice s b (Suc k)) \<noteq> 0"
    by (auto simp add: first_balance_def list_all_iff)
  let ?cs = "drop (Suc b) s"
  let ?k = "e - Suc b"
  have k: "?k < length ?cs" using e by simp
  have bal: "1 + depth (take (Suc ?k) ?cs) = 0"
    using slice_from_brace [OF assms(1,2), of e] e
    by (simp add: Suc_diff_Suc)
  have rest: "\<forall>j<?k. 1 + depth (take (Suc j) ?cs) \<noteq> 0"
  proof (intro allI impI)
    fix j assume j: "j < ?k"
    have "depth (slice s b (Suc (Suc b + j))) \<noteq> 0"
      using no [of "Suc b + j"] j by simp
    then show "1 + depth (take (Suc j) ?cs) \<noteq> 0"
      using slice_from_brace [OF assms(1,2), of "Suc b + j"] by simp
  qed
  have "?cs ! ?k = CHR ''}''"
    by (rule closing_brace_at_balance [OF _ k bal rest]) simp
  then show ?thesis using e by simp
qed

text \<open>
  C2, amended. Whenever the locator succeeds, its result is the text strictly between an
  opening brace at \<open>b\<close> and a closing brace at \<open>e\<close>, where \<open>a\<close> is the first position at which
  the array name stands immediately followed by an opening bracket, \<open>b\<close> the first opening
  brace from \<open>a\<close> on, and \<open>e\<close> the first position behind \<open>b\<close> at which the depth, counted
  from \<open>b\<close>, is back at 0.
\<close>

theorem locate_returns_literal:
  "extract_checkpoint_array s = Inr lit \<Longrightarrow>
   \<exists>a b e. located (array_name @ ''['') s a b e lit \<and> s ! b = CHR ''{'' \<and> s ! e = CHR ''}''"
proof -
  assume "extract_checkpoint_array s = Inr lit"
  then obtain a b e where l: "located (array_name @ ''['') s a b e lit"
    unfolding extract_Inr by blast
  then have fb: "first_at ''{'' s a b" and e: "first_balance s b e"
    by (simp_all add: located_def)
  note br = first_at_brace [OF fb]
  have "s ! e = CHR ''}''"
    using first_balance_closes [of b s e] br e by simp
  then show ?thesis using l br by blast
qed

theorem locate_returns_literal_witness:
  "extract_checkpoint_array ''HSK_CHECKPOINT_MAIN {a} HSK_CHECKPOINT_MAIN[1] = {b{c}d}; {'' =
     Inr ''b{c}d'' \<and>
   (\<exists>a b e. located (array_name @ ''['') ''HSK_CHECKPOINT_MAIN {a} HSK_CHECKPOINT_MAIN[1] = {b{c}d}; {''
       a b e ''b{c}d'' \<and>
     ''HSK_CHECKPOINT_MAIN {a} HSK_CHECKPOINT_MAIN[1] = {b{c}d}; {'' ! b = CHR ''{'' \<and>
     ''HSK_CHECKPOINT_MAIN {a} HSK_CHECKPOINT_MAIN[1] = {b{c}d}; {'' ! e = CHR ''}'')"
proof -
  have r: "extract_checkpoint_array ''HSK_CHECKPOINT_MAIN {a} HSK_CHECKPOINT_MAIN[1] = {b{c}d}; {'' =
     Inr ''b{c}d''"
    by code_simp
  show ?thesis
    using r locate_returns_literal [OF r] by blast
qed

text \<open>
  C2 as stated starts at the first occurrence of the name. In the text below the bare name
  occurs first without a bracket: the specified algorithm, started there, isolates \<open>a\<close>,
  and the locator returns \<open>b\<close> (by \<open>located_functional\<close> the specified result is unique).
\<close>

theorem locate_first_name_counterexample:
  "extract_checkpoint_array ''HSK_CHECKPOINT_MAIN {a} HSK_CHECKPOINT_MAIN[1] = {b}'' = Inr ''b'' \<and>
   located array_name ''HSK_CHECKPOINT_MAIN {a} HSK_CHECKPOINT_MAIN[1] = {b}'' 0 20 22 ''a''"
  by code_simp

text \<open>
  C3, amended. The locator fails with the not-found error exactly when the array name
  followed by an opening bracket does not occur in the text. It fails with the
  malformed-literal error exactly when that text occurs and either no opening brace
  follows its first occurrence, or the depth counted from the first such brace is never
  back at 0 before the text ends. In every other case it returns a contiguous part of the
  text.
\<close>

theorem locate_failures:
  "fails_with NotFoundError (extract_checkpoint_array s) = (\<not> occurs (array_name @ ''['') s) \<and>
   fails_with MalformedLiteralError (extract_checkpoint_array s) =
     (\<exists>a. first_at (array_name @ ''['') s 0 a \<and>
        (no_brace_from s a \<or> (\<exists>b. first_at ''{'' s a b \<and> never_balanced s b))) \<and>
   (\<not> fails_with NotFoundError (extract_checkpoint_array s) \<and>
    \<not> fails_with MalformedLiteralError (extract_checkpoint_array s) \<longrightarrow>
      (\<exists>lit. extract_checkpoint_array s = Inr lit \<and> sublist lit s))"
proof (intro conjI impI)
  have "fails_with NotFoundError (extract_checkpoint_array s) \<longleftrightarrow>
        extract_checkpoint_array s = Inl ArrayNotFound"
    by (auto simp add: fails_with_def NotFoundError_def split: sum.splits)
  then show "fails_with NotFoundError (extract_checkpoint_array s) =
        (\<not> occurs (array_name @ ''['') s)"
    by (simp add: extract_ArrayNotFound)
next
  have "fails_with MalformedLiteralError (extract_checkpoint_array s) \<longleftrightarrow>
        extract_checkpoint_array s = Inl OpeningBraceNotFound \<or>
        extract_checkpoint_array s = Inl ClosingBraceNotFound"
    by (auto simp add: fails_with_def MalformedLiteralError_def split: sum.splits)
  then show "fails_with MalformedLiteralError (extract_checkpoint_array s) =
     (\<exists>a. first_at (array_name @ ''['') s 0 a \<and>
        (no_brace_from s a \<or> (\<exists>b. first_at ''{'' s a b \<and> never_balanced s b)))"
    unfolding extract_OpeningBraceNotFound extract_ClosingBraceNotFound by blast
next
  assume "\<not> fails_with NotFoundError (extract_checkpoint_array s) \<and>
    \<not> fails_with MalformedLiteralError (extract_checkpoint_array s)"
  then have "extract_checkpoint_array s \<noteq> Inl ArrayNotFound"
    "extract_checkpoint_array s \<noteq> Inl OpeningBraceNotFound"
    "extract_checkpoint_array s \<noteq> Inl ClosingBraceNotFound"
    by (auto simp add: fails_with_def NotFoundError_def MalformedLiteralError_def)
  then obtain lo hi where "extract_checkpoint_array s = Inr (slice s lo hi)"
    using extract_cases [of s] by blast
  then show "\<exists>lit. extract_checkpoint_array s = Inr lit \<and> sublist lit s"
    using sublist_slice by blast
qed

theorem locate_failures_witness:
  "fails_with NotFoundError (extract_checkpoint_array ''int x = {1};'') \<and>
   fails_with MalformedLiteralError (extract_checkpoint_array ''HSK_CHECKPOINT_MAIN[] = ;'') \<and>
   fails_with MalformedLiteralError (extract_checkpoint_array ''HSK_CHECKPOINT_MAIN[] = {{x};'') \<and>
   (\<exists>lit. extract_checkpoint_array ''HSK_CHECKPOINT_MAIN[] = {{x}};'' = Inr lit \<and>
      sublist lit ''HSK_CHECKPOINT_MAIN[] = {{x}};'')"
proof -
  have 1: "\<not> occurs (array_name @ ''['') ''int x = {1};''" by code_simp
  have 2: "first_at (array_name @ ''['') ''HSK_CHECKPOINT_MAIN[] = ;'' 0 0 \<and>
           no_brace_from ''HSK_CHECKPOINT_MAIN[] = ;'' 0" by code_simp
  have 3: "first_at (array_name @ ''['') ''HSK_CHECKPOINT_MAIN[] = {{x};'' 0 0 \<and>
           first_at ''{'' ''HSK_CHECKPOINT_MAIN[] = {{x};'' 0 24 \<and>
           never_balanced ''HSK_CHECKPOINT_MAIN[] = {{x};'' 24" by code_simp
  have 4: "\<not> fails_with NotFoundError (extract_checkpoint_array ''HSK_CHECKPOINT_MAIN[] = {{x}};'') \<and>
    \<not> fails_with MalformedLiteralError (extract_checkpoint_array ''HSK_CHECKPOINT_MAIN[] = {{x}};'')"
    by code_simp
  have a: "fails_with NotFoundError (extract_checkpoint_array ''int x = {1};'')"
    using locate_failures [of "''int x = {1};''"] 1 by blast
  have b: "fails_with MalformedLiteralError (extract_checkpoint_array ''HSK_CHECKPOINT_MAIN[] = ;'')"
    using locate_failures [of "''HSK_CHECKPOINT_MAIN[] = ;''"] 2 by blast
  have c: "fails_with MalformedLiteralError (extract_checkpoint_array ''HSK_CHECKPOINT_MAIN[] = {{x};'')"
    using locate_failures [of "''HSK_CHECKPOINT_MAIN[] = {{x};''"] 3 by blast
  have d: "\<exists>lit. extract_checkpoint_array ''HSK_CHECKPOINT_MAIN[] = {{x}};'' = Inr lit \<and>
      sublist lit ''HSK_CHECKPOINT_MAIN[] = {{x}};''"
    using locate_failures [of "''HSK_CHECKPOINT_MAIN[] = {{x}};''"] 4 by blast
  show ?thesis using a b c d by blast
qed

text \<open>
  C3 as stated ties the not-found error to the name not occurring. Here the name occurs,
  without a bracket behind it, and the locator fails with the not-found error.
\<close>

theorem locate_not_found_counterexample:
  "occurs array_name ''const uint8_t HSK_CHECKPOINT_MAIN = {0};'' \<and>
   extract_checkpoint_array ''const uint8_t HSK_CHECKPOINT_MAIN = {0};'' = Inl ArrayNotFound \<and>
   fails_with NotFoundError (extract_checkpoint_array ''const uint8_t HSK_CHECKPOINT_MAIN = {0};'')"
  by code_simp

section \<open>The size and height checks\<close>

text \<open>
  The shifts and bitwise ors of line 122 add up to the big-endian reading of the four
  bytes, since every byte is below \<open>2 ^ 8\<close>.
\<close>

lemma or_push_bit_low:
  fixes a b :: nat
  assumes "b < 2 ^ n"
  shows "push_bit n a OR b = a * 2 ^ n + b"
proof -
  have nb: "\<not> bit b k" if "n \<le> k" for k
  proof -
    have "(2::nat) ^ n \<le> 2 ^ k" using that by (simp add: power_increasing)
    with assms have "b < 2 ^ k" by (rule less_le_trans)
    then have "b div 2 ^ k = 0" by (rule div_less)
    then show ?thesis by (simp add: bit_iff_odd)
  qed
  have "push_bit n a AND b = 0"
    by (rule bit_eqI) (auto simp add: bit_simps nb)
  then have "push_bit n a + b = push_bit n a OR b"
    by (rule disjunctive_add_eq_or)
  then show ?thesis by (simp add: push_bit_eq_mult)
qed

lemma height_of_big_endian: "height_of bs = big_endian_uint32 bs"
proof -
  have b: "unat (x :: byte) < 2 ^ 8" for x
    using unsigned_less [of x, where 'a = nat] by simp
  let ?b0 = "unat (bs ! 0)" and ?b1 = "unat (bs ! 1)" and ?b2 = "unat (bs ! 2)"
    and ?b3 = "unat (bs ! 3)"
  have 1: "push_bit 8 ?b2 OR ?b3 = ?b2 * 2 ^ 8 + ?b3"
    by (rule or_push_bit_low) (rule b)
  have lt16: "?b2 * 2 ^ 8 + ?b3 < 2 ^ 16"
    using b [of "bs ! 2"] b [of "bs ! 3"] by simp
  have 2: "push_bit 16 ?b1 OR (?b2 * 2 ^ 8 + ?b3) = ?b1 * 2 ^ 16 + (?b2 * 2 ^ 8 + ?b3)"
    by (rule or_push_bit_low) (rule lt16)
  have lt24: "?b1 * 2 ^ 16 + (?b2 * 2 ^ 8 + ?b3) < 2 ^ 24"
    using b [of "bs ! 1"] lt16 by simp
  have 3: "push_bit 24 ?b0 OR (?b1 * 2 ^ 16 + (?b2 * 2 ^ 8 + ?b3)) =
           ?b0 * 2 ^ 24 + (?b1 * 2 ^ 16 + (?b2 * 2 ^ 8 + ?b3))"
    by (rule or_push_bit_low) (rule lt24)
  have "height_of bs = push_bit 24 ?b0 OR (push_bit 16 ?b1 OR (push_bit 8 ?b2 OR ?b3))"
    by (simp add: height_of_def or.assoc)
  then show ?thesis
    by (simp only: 1 2 3 big_endian_uint32_def add.assoc)
qed

lemma big_endian_uint32_lt: "big_endian_uint32 bs < 2 ^ 32"
proof -
  have b: "unat (x :: byte) \<le> 255" for x
    using unsigned_less [of x, where 'a = nat] by simp
  show ?thesis
    using b [of "bs ! 0"] b [of "bs ! 1"] b [of "bs ! 2"] b [of "bs ! 3"]
    by (simp add: big_endian_uint32_def)
qed

lemma slice_0: "slice xs 0 n = take n xs"
  by (simp add: slice_def)

lemma validate_size:
  "sizeOk (validate d) = (length d = expected_size)"
  by (simp add: validate_def sizeOk_def Let_def)

lemma validate_heights:
  "heights (validate d) = (if 4 \<le> length d then [big_endian_uint32 (take 4 d)] else [])"
  by (simp add: validate_def heights_def Let_def List.map_filter_simps slice_0 height_of_big_endian)

lemma validate_heightOk:
  "heightOk (validate d) = (4 \<le> length d \<and> big_endian_uint32 (take 4 d) = expected_height)"
  by (simp add: validate_def heightOk_def Let_def slice_0 height_of_big_endian)

lemma expected_size_value: "expected_size = 35436"
  by (simp add: expected_size_def)

lemma validate_mismatch:
  "((Stderr, SizeMismatch expected_size (length d)) \<in> set (validate d)) = (length d \<noteq> expected_size)"
  by (simp add: validate_def Let_def)

text \<open>
  C4. The expected size is \<open>4 + 32 + 150 * 236 = 35436\<close>; the size is reported in order
  exactly when the decoded bytes have that length, and the size warning is printed exactly
  when they do not. In particular 35435 bytes are reported as not in order.
\<close>

theorem size_check:
  "expected_size = 35436 \<and>
   sizeOk (validate d) = (length d = 35436) \<and>
   ((Stderr, SizeMismatch 35436 (length d)) \<in> set (validate d)) = (length d \<noteq> 35436) \<and>
   (length d = 35435 \<longrightarrow> \<not> sizeOk (validate d))"
  using validate_size [of d] validate_mismatch [of d] by (simp add: expected_size_value)

theorem size_check_witness:
  "\<not> sizeOk (validate (replicate 35435 0)) \<and> sizeOk (validate (replicate 35436 0)) \<and>
   (Stderr, SizeMismatch 35436 35435) \<in> set (validate (replicate 35435 0))"
proof -
  have l1: "length (replicate 35435 (0::byte)) = 35435" by (rule length_replicate)
  have l2: "length (replicate 35436 (0::byte)) = 35436" by (rule length_replicate)
  have a: "\<not> sizeOk (validate (replicate 35435 0))"
    using size_check [of "replicate 35435 0"] l1 by blast
  have b: "sizeOk (validate (replicate 35436 0))"
    using size_check [of "replicate 35436 0"] l2 by blast
  have "(Stderr, SizeMismatch 35436 (length (replicate 35435 (0::byte)))) \<in>
          set (validate (replicate 35435 0))"
    using size_check [of "replicate 35435 0"] a by blast
  then show ?thesis using a b unfolding l1 by blast
qed

lemma big_endian_136000: "big_endian_uint32 [0x00, 0x02, 0x13, 0x40] = 136000"
  by (simp add: big_endian_uint32_def)

lemma big_endian_1: "big_endian_uint32 [0, 0, 0, 1] = 1"
  by (simp add: big_endian_uint32_def)

text \<open>
  C5. On at least four bytes the height stated is the big-endian unsigned 32-bit reading
  of the first four, and the height is reported in order exactly when that is 136000:
  \<open>00 02 13 40\<close> is in order, \<open>00 00 00 01\<close> gives height 1 and is not. On fewer than four
  bytes no height is stated and the height is not reported in order.
\<close>

theorem height_check:
  "(4 \<le> length d \<longrightarrow>
      heights (validate d) = [big_endian_uint32 (take 4 d)] \<and>
      heightOk (validate d) = (big_endian_uint32 (take 4 d) = 136000) \<and>
      big_endian_uint32 (take 4 d) < 2 ^ 32) \<and>
   (length d < 4 \<longrightarrow> heights (validate d) = [] \<and> \<not> heightOk (validate d)) \<and>
   (take 4 d = [0x00, 0x02, 0x13, 0x40] \<longrightarrow> heightOk (validate d)) \<and>
   (take 4 d = [0, 0, 0, 1] \<longrightarrow> heights (validate d) = [1] \<and> \<not> heightOk (validate d))"
proof -
  have long: "heights (validate d) = [big_endian_uint32 (take 4 d)] \<and>
      heightOk (validate d) = (big_endian_uint32 (take 4 d) = 136000)" if "4 \<le> length d"
    using that by (simp add: validate_heights validate_heightOk expected_height_def)
  have short: "heights (validate d) = [] \<and> \<not> heightOk (validate d)" if "length d < 4"
    using that by (simp add: validate_heights validate_heightOk)
  have four: "4 \<le> length d" if "take 4 d = [a, b, c, e]" for a b c e
  proof -
    have "length (take 4 d) = 4" using that by simp
    then show ?thesis by simp
  qed
  have ok: "heightOk (validate d)" if "take 4 d = [0x00, 0x02, 0x13, 0x40]"
    using long [OF four [OF that]] that by (simp add: big_endian_136000)
  have one: "heights (validate d) = [1] \<and> \<not> heightOk (validate d)"
    if "take 4 d = [0, 0, 0, 1]"
    using long [OF four [OF that]] that by (simp add: big_endian_1)
  show ?thesis
    using long short ok one big_endian_uint32_lt [of "take 4 d"] by blast
qed

theorem height_check_witness:
  "heightOk (validate ([0x00, 0x02, 0x13, 0x40] @ replicate 35432 0)) \<and>
   heights (validate ([0x00, 0x02, 0x13, 0x40] @ replicate 35432 0)) = [136000] \<and>
   heights (validate ([0, 0, 0, 1] @ replicate 35432 0)) = [1] \<and>
   \<not> heightOk (validate ([0, 0, 0, 1] @ replicate 35432 0)) \<and>
   heights (validate [0x00, 0x02, 0x13]) = [] \<and> \<not> heightOk (validate [0x00, 0x02, 0x13])"
proof -
  have t1: "take 4 ([0x00, 0x02, 0x13, 0x40] @ xs) = [0x00, 0x02, 0x13, 0x40]" for xs :: "byte list"
    by simp
  have t2: "take 4 ([0, 0, 0, 1] @ xs) = [0, 0, 0, 1]" for xs :: "byte list"
    by simp
  have t3: "length [0x00, 0x02, 0x13 :: byte] < 4" by simp
  have a: "heightOk (validate ([0x00, 0x02, 0x13, 0x40] @ replicate 35432 0))"
    using height_check [of "[0x00, 0x02, 0x13, 0x40] @ replicate 35432 0"] t1 by blast
  have t4: "4 \<le> length ([0x00, 0x02, 0x13, 0x40] @ replicate 35432 (0::byte))" by simp
  have "heights (validate ([0x00, 0x02, 0x13, 0x40] @ replicate 35432 0)) =
          [big_endian_uint32 (take 4 ([0x00, 0x02, 0x13, 0x40] @ replicate 35432 0))]"
    using height_check [of "[0x00, 0x02, 0x13, 0x40] @ replicate 35432 0"] t4 by blast
  then have a': "heights (validate ([0x00, 0x02, 0x13, 0x40] @ replicate 35432 0)) = [136000]"
    by (simp only: t1 big_endian_136000)
  have b: "heights (validate ([0, 0, 0, 1] @ replicate 35432 0)) = [1] \<and>
           \<not> heightOk (validate ([0, 0, 0, 1] @ replicate 35432 0))"
    using height_check [of "[0, 0, 0, 1] @ replicate 35432 0"] t2 by blast
  have c: "heights (validate [0x00, 0x02, 0x13]) = [] \<and> \<not> heightOk (validate [0x00, 0x02, 0x13])"
    using height_check [of "[0x00, 0x02, 0x13]"] t3 by blast
  show ?thesis using a a' b c by blast
qed

section \<open>Runs of main\<close>

lemma heights_append: "heights (xs @ ys) = heights xs @ heights ys"
  by (simp add: heights_def List.map_filter_def)

lemma main_success:
  assumes "extract_checkpoint_array content = Inr lit"
  shows "main (Some content) True =
     \<lparr>printed = (Stdout, ReadingFrom) # validate (extract_hex_strings lit) @
                  [(Stdout, WroteCheckpoint), (Stdout, FileSize (length (extract_hex_strings lit)))],
      written = Some (extract_hex_strings lit), exit_status = 0\<rparr>"
  using assms by (simp add: main_def Let_def)

lemma main_printed_prefix:
  assumes "extract_checkpoint_array content = Inr lit"
  shows "\<exists>rest. printed (main (Some content) writable) =
           (Stdout, ReadingFrom) # validate (extract_hex_strings lit) @ rest \<and>
           heights rest = []"
proof (cases writable)
  case True
  then show ?thesis
    using assms by (simp add: main_def Let_def heights_def List.map_filter_simps)
next
  case False
  then show ?thesis
    using assms by (simp add: main_def Let_def heights_def List.map_filter_simps)
qed

lemma validate_height_mismatch:
  "4 \<le> length d \<Longrightarrow> \<not> heightOk (validate d) \<Longrightarrow>
   (Stderr, HeightMismatch expected_height (big_endian_uint32 (take 4 d))) \<in> set (validate d)"
  by (simp add: validate_def heightOk_def Let_def slice_0 height_of_big_endian split: if_splits)

lemma validate_states_size:
  "(Stdout, ExtractedBytes (length d)) \<in> set (validate d) \<and>
   (Stdout, ExpectedSize expected_size) \<in> set (validate d)"
  by (simp add: validate_def)

lemma validate_states_height:
  "4 \<le> length d \<Longrightarrow>
   (Stdout, CheckpointHeight (big_endian_uint32 (take 4 d)) expected_height) \<in> set (validate d)"
  by (simp add: validate_def Let_def slice_0 height_of_big_endian)

text \<open>
  C6. Whenever the array is located and the output file can be written, the run writes
  the decoded bytes as they are and ends with status 0, whatever the size and height
  checks find; its output is the validation messages between the opening line and the two
  closing lines, among them the size warning when the size is not in order and the height
  warning when a height was read and is not in order.
\<close>

theorem mismatch_not_fatal:
  "extract_checkpoint_array content = Inr lit \<Longrightarrow>
   written (main (Some content) True) = Some (extract_hex_strings lit) \<and>
   exit_status (main (Some content) True) = 0 \<and>
   printed (main (Some content) True) =
     (Stdout, ReadingFrom) # validate (extract_hex_strings lit) @
     [(Stdout, WroteCheckpoint), (Stdout, FileSize (length (extract_hex_strings lit)))] \<and>
   (\<not> sizeOk (validate (extract_hex_strings lit)) \<longrightarrow>
      (Stderr, SizeMismatch expected_size (length (extract_hex_strings lit)))
        \<in> set (printed (main (Some content) True))) \<and>
   (4 \<le> length (extract_hex_strings lit) \<and> \<not> heightOk (validate (extract_hex_strings lit)) \<longrightarrow>
      (Stderr, HeightMismatch expected_height (big_endian_uint32 (take 4 (extract_hex_strings lit))))
        \<in> set (printed (main (Some content) True)))"
proof -
  assume r: "extract_checkpoint_array content = Inr lit"
  let ?d = "extract_hex_strings lit"
  note m = main_success [OF r]
  have p: "printed (main (Some content) True) =
     (Stdout, ReadingFrom) # validate ?d @ [(Stdout, WroteCheckpoint), (Stdout, FileSize (length ?d))]"
    by (simp add: m)
  have w: "written (main (Some content) True) = Some ?d" by (simp add: m)
  have x: "exit_status (main (Some content) True) = 0" by (simp add: m)
  have s: "(Stderr, SizeMismatch expected_size (length ?d)) \<in> set (printed (main (Some content) True))"
    if "\<not> sizeOk (validate ?d)"
    using that validate_mismatch [of ?d] validate_size [of ?d] by (simp add: p)
  have h: "(Stderr, HeightMismatch expected_height (big_endian_uint32 (take 4 ?d)))
        \<in> set (printed (main (Some content) True))"
    if "4 \<le> length ?d \<and> \<not> heightOk (validate ?d)"
    using that validate_height_mismatch [of ?d] by (simp add: p)
  show ?thesis using p w x s h by blast
qed

theorem mismatch_not_fatal_witness:
  "written (main (Some example_header) True)
     = Some [0, 0, 0, 1] \<and>
   exit_status (main (Some example_header) True)
     = 0 \<and>
   (Stderr, SizeMismatch 35436 4) \<in> set (printed (main (Some example_header) True)) \<and>
   (Stderr, HeightMismatch 136000 1) \<in> set (printed (main (Some example_header) True))"
proof -
  have r: "extract_checkpoint_array example_header = Inr example_literal" by code_simp
  have d: "extract_hex_strings example_literal = [0, 0, 0, 1]" by code_simp
  have s: "\<not> sizeOk (validate [0, 0, 0, 1])"
    by (simp add: validate_size expected_size_value)
  have h: "4 \<le> length [0, 0, 0, 1 :: byte] \<and> \<not> heightOk (validate [0, 0, 0, 1])"
    by (simp add: validate_heightOk big_endian_1 expected_height_def)
  have b: "big_endian_uint32 (take 4 [0, 0, 0, 1]) = 1"
    by (simp add: big_endian_1)
  have l: "length [0, 0, 0, 1 :: byte] = 4" by simp
  note f = mismatch_not_fatal [OF r, unfolded d b l expected_size_value expected_height_def]
  show ?thesis
    using f s h [unfolded l expected_height_def] by blast
qed

lemma about_height_validate_short:
  "length d < 4 \<Longrightarrow> filter about_height (validate d) = []"
  by (simp add: validate_def)

text \<open>
  C7, amended. Every run that reaches validation states the actual and the expected size.
  When at least four bytes were decoded it states the actual height with the expected
  one; when fewer were decoded it prints no message about the height at all.
\<close>

theorem states_size_and_height:
  "extract_checkpoint_array content = Inr lit \<Longrightarrow>
   (Stdout, ExtractedBytes (length (extract_hex_strings lit)))
      \<in> set (printed (main (Some content) writable)) \<and>
   (Stdout, ExpectedSize 35436) \<in> set (printed (main (Some content) writable)) \<and>
   (4 \<le> length (extract_hex_strings lit) \<longrightarrow>
      (Stdout, CheckpointHeight (big_endian_uint32 (take 4 (extract_hex_strings lit))) 136000)
        \<in> set (printed (main (Some content) writable))) \<and>
   (length (extract_hex_strings lit) < 4 \<longrightarrow>
      filter about_height (printed (main (Some content) writable)) = [])"
proof -
  assume r: "extract_checkpoint_array content = Inr lit"
  let ?d = "extract_hex_strings lit"
  have p: "printed (main (Some content) writable) =
     (Stdout, ReadingFrom) # validate ?d @
     (if writable then [(Stdout, WroteCheckpoint), (Stdout, FileSize (length ?d))]
      else [(Stderr, ErrorMessage OSError)])"
    using r by (simp add: main_def Let_def)
  have 1: "(Stdout, ExtractedBytes (length ?d)) \<in> set (printed (main (Some content) writable))"
    using validate_states_size [of ?d] by (simp add: p)
  have 2: "(Stdout, ExpectedSize 35436) \<in> set (printed (main (Some content) writable))"
    using validate_states_size [of ?d] by (simp add: p expected_size_value)
  have 3: "(Stdout, CheckpointHeight (big_endian_uint32 (take 4 ?d)) 136000)
        \<in> set (printed (main (Some content) writable))" if "4 \<le> length ?d"
    using validate_states_height [OF that] by (simp add: p expected_height_def)
  have 4: "filter about_height (printed (main (Some content) writable)) = []"
    if "length ?d < 4"
    using about_height_validate_short [OF that] by (simp add: p)
  show ?thesis using 1 2 3 4 by blast
qed

theorem states_size_and_height_witness:
  "(Stdout, ExtractedBytes 4) \<in> set (printed (main (Some example_header) True)) \<and>
   (Stdout, ExpectedSize 35436) \<in> set (printed (main (Some example_header) True)) \<and>
   (Stdout, CheckpointHeight 1 136000) \<in> set (printed (main (Some example_header) True)) \<and>
   filter about_height (printed (main (Some ''HSK_CHECKPOINT_MAIN[] = {}'') True)) = []"
proof -
  have r: "extract_checkpoint_array example_header = Inr example_literal" by code_simp
  have d: "extract_hex_strings example_literal = [0, 0, 0, 1]" by code_simp
  have b: "big_endian_uint32 (take 4 [0, 0, 0, 1]) = 1"
    by (simp add: big_endian_1)
  have l: "length [0, 0, 0, 1 :: byte] = 4" by simp
  have r0: "extract_checkpoint_array ''HSK_CHECKPOINT_MAIN[] = {}'' = Inr ''''" by code_simp
  have d0: "extract_hex_strings '''' = []" by code_simp
  have a: "(Stdout, ExtractedBytes 4) \<in> set (printed (main (Some example_header) True)) \<and>
           (Stdout, ExpectedSize 35436) \<in> set (printed (main (Some example_header) True)) \<and>
           (Stdout, CheckpointHeight 1 136000) \<in> set (printed (main (Some example_header) True))"
    using states_size_and_height [OF r, of True, unfolded d b l] by simp
  have z: "filter about_height (printed (main (Some ''HSK_CHECKPOINT_MAIN[] = {}'') True)) = []"
    using states_size_and_height [OF r0, of True, unfolded d0] by simp
  show ?thesis using a z by blast
qed

text \<open>
  C7 as stated has the height stated on every run that reaches validation. An empty
  initialiser decodes to no bytes; the run reaches validation and prints the seven
  messages below, none of them about the height.
\<close>

theorem no_height_stated_counterexample:
  "printed (main (Some ''HSK_CHECKPOINT_MAIN[] = {}'') True) =
     [(Stdout, ReadingFrom), (Stdout, ExtractedBytes 0), (Stdout, ExpectedSize 35436),
      (Stderr, SizeMismatch 35436 0), (Stderr, ExtractionIssueHint),
      (Stdout, WroteCheckpoint), (Stdout, FileSize 0)] \<and>
   filter about_height (printed (main (Some ''HSK_CHECKPOINT_MAIN[] = {}'') True)) = []"
proof -
  have r0: "extract_checkpoint_array ''HSK_CHECKPOINT_MAIN[] = {}'' = Inr ''''" by code_simp
  have d0: "extract_hex_strings '''' = []" by code_simp
  have "printed (main (Some ''HSK_CHECKPOINT_MAIN[] = {}'') True) =
     [(Stdout, ReadingFrom), (Stdout, ExtractedBytes 0), (Stdout, ExpectedSize 35436),
      (Stderr, SizeMismatch 35436 0), (Stderr, ExtractionIssueHint),
      (Stdout, WroteCheckpoint), (Stdout, FileSize 0)]"
    by (simp add: main_def r0 d0 Let_def validate_def expected_size_value)
  then show ?thesis by simp
qed

section \<open>The round trip\<close>

lemma hex_char_table:
  "\<forall>n \<in> set [0..<16]. digit_value (hex_char n) = n \<and> hex_digit (hex_char n) \<and>
      hex_char n \<noteq> CHR ''{'' \<and> hex_char n \<noteq> CHR ''}''"
  by code_simp

lemma hex_char_props:
  assumes "n < 16"
  shows "digit_value (hex_char n) = n" "hex_digit (hex_char n)"
    "hex_char n \<noteq> CHR ''{''" "hex_char n \<noteq> CHR ''}''"
proof -
  have "n \<in> set [0..<16]" using assms by simp
  then have "digit_value (hex_char n) = n \<and> hex_digit (hex_char n) \<and>
      hex_char n \<noteq> CHR ''{'' \<and> hex_char n \<noteq> CHR ''}''"
    using hex_char_table by blast
  then show "digit_value (hex_char n) = n" "hex_digit (hex_char n)"
    "hex_char n \<noteq> CHR ''{''" "hex_char n \<noteq> CHR ''}''" by simp_all
qed

lemma byte_nibbles: "unat (b :: byte) div 16 < 16" "unat b mod 16 < 16"
proof -
  have "unat b < 256" using unsigned_less [of b, where 'a = nat] by simp
  then show "unat b div 16 < 16" by simp
  show "unat b mod 16 < 16" by simp
qed

lemma int16_hex_escape:
  "of_nat (int16 [hex_char (unat b div 16), hex_char (unat b mod 16)]) = (b :: byte)"
proof -
  have "int16 [hex_char (unat b div 16), hex_char (unat b mod 16)] =
        16 * (unat b div 16) + unat b mod 16"
    by (simp add: int16_def hex_char_props(1) byte_nibbles)
  also have "\<dots> = unat b" by simp
  finally show ?thesis by simp
qed

lemma findall_hex_skip:
  assumes "c \<noteq> backslash"
  shows "findall_hex (c # rest) = findall_hex rest"
proof (cases rest)
  case Nil
  then show ?thesis by simp
next
  case 1: (Cons x1 r1)
  show ?thesis
  proof (cases r1)
    case Nil
    then show ?thesis using 1 by simp
  next
    case 2: (Cons x2 r2)
    show ?thesis
    proof (cases r2)
      case Nil
      then show ?thesis using 1 2 by simp
    next
      case (Cons x3 r3)
      then show ?thesis using 1 2 assms by simp
    qed
  qed
qed

lemma findall_hex_escape:
  "findall_hex (hex_escape b @ rest) =
     [hex_char (unat b div 16), hex_char (unat b mod 16)] # findall_hex rest"
  by (simp add: hex_escape_def hex_char_props(2) byte_nibbles)

lemma findall_hex_escapes:
  "findall_hex (concat (map hex_escape bs) @ [dquote]) =
     map (\<lambda>b. [hex_char (unat b div 16), hex_char (unat b mod 16)]) bs"
  by (induction bs) (simp_all add: findall_hex_escape)

lemma decode_encode_literal: "extract_hex_strings (encode_literal bs) = bs"
proof -
  have "findall_hex (encode_literal bs) = findall_hex (concat (map hex_escape bs) @ [dquote])"
    unfolding encode_literal_def by (simp add: findall_hex_skip)
  then show ?thesis
    by (simp add: extract_hex_strings_def findall_hex_escapes o_def int16_hex_escape)
qed

lemma scan_braces_skip:
  "CHR ''{'' \<notin> set xs \<Longrightarrow> CHR ''}'' \<notin> set xs \<Longrightarrow>
   scan_braces (xs @ ys) i cnt be = scan_braces ys (i + length xs) cnt be"
  by (induction xs arbitrary: i) auto

lemma encode_literal_no_braces:
  "CHR ''{'' \<notin> set (encode_literal bs) \<and> CHR ''}'' \<notin> set (encode_literal bs)"
proof -
  have "CHR ''{'' \<notin> set (hex_escape b) \<and> CHR ''}'' \<notin> set (hex_escape b)" for b
    using hex_char_props(3,4) [OF byte_nibbles(1), of b] hex_char_props(3,4) [OF byte_nibbles(2), of b]
    by (simp add: hex_escape_def)
  then show ?thesis by (auto simp add: encode_literal_def)
qed

lemma find_name:
  "str_find (''static const uint8_t HSK_CHECKPOINT_MAIN[] = {'' @ rest) (array_name @ ''['') 0 = Some 21"
  by (simp add: str_find_def array_name_def)

lemma find_brace:
  "str_find (''static const uint8_t HSK_CHECKPOINT_MAIN[] = {'' @ rest) ''{'' 21 = Some 45"
  by (simp add: str_find_def)

lemma encode_array_shape:
  "encode_array bs =
     ''static const uint8_t HSK_CHECKPOINT_MAIN[] = {'' @ (encode_literal bs @ ''};'')"
  by (simp add: encode_array_def array_name_def)

lemma drop_header:
  "drop 45 (''static const uint8_t HSK_CHECKPOINT_MAIN[] = {'' @ rest) = CHR ''{'' # rest"
  "drop 46 (''static const uint8_t HSK_CHECKPOINT_MAIN[] = {'' @ rest) = rest"
  by simp_all

lemma locate_encode_array:
  "extract_checkpoint_array (encode_array bs) = Inr (encode_literal bs)"
proof -
  let ?lit = "encode_literal bs"
  let ?s = "''static const uint8_t HSK_CHECKPOINT_MAIN[] = {'' @ (?lit @ ''};'')"
  have "scan_braces (CHR ''{'' # (?lit @ ''};'')) 45 0 45 = scan_braces (?lit @ ''};'') 46 1 45"
    by simp
  also have "\<dots> = scan_braces ''};'' (46 + length ?lit) 1 45"
    using encode_literal_no_braces [of bs] by (simp add: scan_braces_skip)
  also have "\<dots> = (0, 46 + length ?lit)"
    by simp
  finally have sc: "scan_braces (drop 45 ?s) 45 0 45 = (0, 46 + length ?lit)"
    by (simp only: drop_header)
  have sl: "slice ?s (45 + 1) (46 + length ?lit) = ?lit"
    by (simp add: slice_def drop_header del: append.simps)
  have "extract_checkpoint_array ?s = Inr ?lit"
    by (simp only: extract_checkpoint_array_def find_name find_brace option.case sc prod.case
          sl if_False simp_thms)
  then show ?thesis by (simp only: encode_array_shape)
qed

text \<open>
  C8. For every byte sequence, the locator applied to its encoding as the declaration of
  the array returns the string literal of escapes between the braces, and the decoder
  applied to that literal returns the byte sequence.
\<close>

theorem round_trip:
  "extract_checkpoint_array (encode_array bs) = Inr (encode_literal bs) \<and>
   extract_hex_strings (encode_literal bs) = bs"
  by (simp add: locate_encode_array decode_encode_literal)

lemma encode_array_example:
  "encode_array [0x00, 0x02, 0x13, 0x40, 0xff] =
     ''static const uint8_t HSK_CHECKPOINT_MAIN[] = {'' @ [dquote, backslash] @ ''x00'' @
     [backslash] @ ''x02'' @ [backslash] @ ''x13'' @ [backslash] @ ''x40'' @
     [backslash] @ ''xff'' @ [dquote] @ ''};''"
  by code_simp

section \<open>The log cleaner keeps what it does not drop\<close>

lemma occurs_middle:
  assumes "occurs (xs @ ys @ zs) s"
  shows "occurs ys s"
proof -
  from assms obtain p where "occurs_at (xs @ ys @ zs) s p"
    by (auto simp add: occurs_iff_ex)
  then have p: "p \<le> length s" and "prefix (xs @ ys @ zs) (drop p s)"
    by (simp_all add: occurs_at_def)
  then obtain r where r: "drop p s = xs @ ys @ zs @ r"
    by (auto simp add: prefix_def)
  have "drop (p + length xs) s = drop (length xs) (drop p s)"
    by (simp add: add.commute)
  also have "\<dots> = ys @ zs @ r" by (simp add: r)
  finally have d: "drop (p + length xs) s = ys @ (zs @ r)" by simp
  have "length (drop p s) = length (xs @ ys @ zs @ r)" by (simp only: r)
  then have "length s - p = length xs + (length ys + (length zs + length r))" by simp
  with p have "p + length xs \<le> length s" by linarith
  then have "occurs_at ys s (p + length xs)"
    by (simp add: occurs_at_def d)
  then show ?thesis by (auto simp add: occurs_iff_ex)
qed

lemma Log_d_has_Log: "occurs ''Log.d'' line \<Longrightarrow> occurs ''Log.'' line"
  using occurs_middle [of "[]" "''Log.''" "''d''" line] by simp

lemma android_Log_d_has_Log: "occurs ''android.util.Log.d'' line \<Longrightarrow> occurs ''Log.'' line"
  using occurs_middle [of "''android.util.''" "''Log.''" "''d''" line] by simp

lemma is_removed_has_Log: "is_removed lib line \<Longrightarrow> occurs ''Log.'' line"
  using Log_d_has_Log android_Log_d_has_Log by (auto simp add: is_removed_def)

lemma clean_loop_filter:
  "clean_loop lib lines cleaned removed =
     (cleaned @ filter (\<lambda>l. \<not> is_removed lib l) lines,
      removed + length (filter (is_removed lib) lines))"
proof (induction lines arbitrary: cleaned removed)
  case Nil
  then show ?case by simp
next
  case (Cons line rest)
  show ?case
  proof (cases "is_removed lib line")
    case True
    then have "clean_loop lib (line # rest) cleaned removed = clean_loop lib rest cleaned (removed + 1)"
      by (auto simp add: is_removed_def)
    then show ?thesis using True Cons.IH [of cleaned "removed + 1"] by simp
  next
    case False
    then have "clean_loop lib (line # rest) cleaned removed =
               clean_loop lib rest (cleaned @ [line]) removed"
      by (auto simp add: is_removed_def)
    then show ?thesis using False Cons.IH [of "cleaned @ [line]" removed] by simp
  qed
qed

lemma clean_file_cases:
  "fst (clean_file lib writable lines) = lines \<or>
   fst (clean_file lib writable lines) = filter (\<lambda>l. \<not> is_removed lib l) lines"
  by (simp add: clean_file_def clean_loop_filter)

lemma filter_kept:
  "filter (\<lambda>l. \<not> occurs ''Log.'' l) (filter (\<lambda>l. \<not> is_removed lib l) lines) =
   filter (\<lambda>l. \<not> occurs ''Log.'' l) lines"
proof -
  have "(\<not> occurs ''Log.'' l \<and> \<not> is_removed lib l) = (\<not> occurs ''Log.'' l)" for l
    using is_removed_has_Log [of lib l] by blast
  then show ?thesis by (simp add: conj_commute)
qed

text \<open>
  C10. For every behaviour of the library calls, the lines of the file after
  \<open>clean_file\<close> are a subsequence of the lines before; the lines in which \<open>Log.\<close> does not
  occur are the same before and after, in order and number, and each of them is still in
  the file.
\<close>

theorem cleaner_only_drops_log_lines:
  "subseq (fst (clean_file lib writable lines)) lines \<and>
   filter (\<lambda>l. \<not> occurs ''Log.'' l) (fst (clean_file lib writable lines)) =
     filter (\<lambda>l. \<not> occurs ''Log.'' l) lines \<and>
   (\<forall>l \<in> set lines. \<not> occurs ''Log.'' l \<longrightarrow> l \<in> set (fst (clean_file lib writable lines)))"
proof -
  let ?out = "fst (clean_file lib writable lines)"
  have a: "subseq ?out lines"
    using clean_file_cases [of lib writable lines] by (auto simp add: subseq_filter_left)
  have b: "filter (\<lambda>l. \<not> occurs ''Log.'' l) ?out = filter (\<lambda>l. \<not> occurs ''Log.'' l) lines"
    using clean_file_cases [of lib writable lines] filter_kept [of lib lines] by auto
  have c: "l \<in> set ?out" if "l \<in> set lines" "\<not> occurs ''Log.'' l" for l
  proof -
    have "l \<in> set (filter (\<lambda>l. \<not> occurs ''Log.'' l) lines)" using that by simp
    then have "l \<in> set (filter (\<lambda>l. \<not> occurs ''Log.'' l) ?out)" by (simp only: b)
    then show ?thesis by simp
  qed
  show ?thesis using a b c by blast
qed

theorem cleaner_only_drops_log_lines_witness:
  "clean_file match_everything True
     [''val x = 1'', ''    Log.d(TAG, x)'', ''catalog.dump()'', ''Log.i(TAG, x)'', ''}''] =
     ([''val x = 1'', ''catalog.dump()'', ''}''], True) \<and>
   subseq [''val x = 1'', ''catalog.dump()'', ''}'']
     [''val x = 1'', ''    Log.d(TAG, x)'', ''catalog.dump()'', ''Log.i(TAG, x)'', ''}''] \<and>
   ''catalog.dump()'' \<in> set [''val x = 1'', ''catalog.dump()'', ''}'']"
proof -
  let ?ls = "[''val x = 1'', ''    Log.d(TAG, x)'', ''catalog.dump()'', ''Log.i(TAG, x)'', ''}'']"
  have e: "clean_file match_everything True ?ls = ([''val x = 1'', ''catalog.dump()'', ''}''], True)"
    by code_simp
  have n: "''catalog.dump()'' \<in> set ?ls \<and> \<not> occurs ''Log.'' ''catalog.dump()''"
    by code_simp
  note t = cleaner_only_drops_log_lines [of match_everything True ?ls, unfolded e fst_conv]
  have "subseq [''val x = 1'', ''catalog.dump()'', ''}''] ?ls" using t by blast
  moreover have "''catalog.dump()'' \<in> set [''val x = 1'', ''catalog.dump()'', ''}'']"
    using t n by blast
  ultimately show ?thesis using e by blast
qed

end
